theory Spec2Isabelle
  imports Main "HOL-Library.Sublist"
begin

section \<open>Python values used by main.py\<close>

text \<open>
  A Python \<open>str\<close> is modelled as a \<open>string\<close>, one list element per character of the
  source string; all patterns that main.py searches for are ASCII.  Exceptions are values:
  every raise of the source is an \<open>Inl\<close> branch of the model.  The message of an
  \<open>assert\<close> is kept, so that the assertion of the start-up code (which has a message) can
  be told from the two assertions of \<open>main\<close> (which have none).
\<close>

datatype error =
    IndexError
  | ValueError
  | TypeError
  | FileNotFoundError
  | AssertionError string

definition backslash :: char where
  "backslash = CHR 0x5C"

definition dquote :: char where
  "dquote = CHR 0x22"

subsection \<open>\<open>sub in st\<close>, \<open>st.find\<close>, \<open>st.replace\<close>\<close>

text \<open>\<open>sub in st\<close>: \<open>sub\<close> occurs in \<open>st\<close> as a contiguous substring.\<close>

primrec str_in :: "string \<Rightarrow> string \<Rightarrow> bool" where
  "str_in sub [] = (sub = [])"
| "str_in sub (c # cs) = (prefix sub (c # cs) \<or> str_in sub cs)"

text \<open>
  \<open>st.find(sub)\<close>: the lowest index at which \<open>sub\<close> occurs; Python's result \<open>-1\<close> is
  \<open>None\<close> here.
\<close>

primrec find_idx :: "string \<Rightarrow> string \<Rightarrow> nat option" where
  "find_idx sub [] = (if sub = [] then Some 0 else None)"
| "find_idx sub (c # cs) =
     (if prefix sub (c # cs) then Some 0 else map_option Suc (find_idx sub cs))"

text \<open>
  \<open>st.find(sub, start)\<close> for \<open>start \<ge> 0\<close>: the lowest index \<open>\<ge> start\<close> at which
  \<open>sub\<close> occurs; a start beyond the end finds nothing.
\<close>

definition find_from :: "string \<Rightarrow> string \<Rightarrow> nat \<Rightarrow> nat option" where
  "find_from sub st start =
     (if length st < start then None
      else map_option (\<lambda>i. start + i) (find_idx sub (drop start st)))"

text \<open>
  \<open>st.replace(old, new)\<close>: the occurrences of \<open>old\<close> are replaced from left to right,
  without overlap.  For an empty \<open>old\<close> Python inserts \<open>new\<close> before every character and
  at the end.
\<close>

fun replace_ne :: "string \<Rightarrow> string \<Rightarrow> string \<Rightarrow> string" where
  "replace_ne old new [] = []"
| "replace_ne old new (c # cs) =
     (if prefix old (c # cs) then new @ replace_ne old new (drop (length old - 1) cs)
      else c # replace_ne old new cs)"

definition replace :: "string \<Rightarrow> string \<Rightarrow> string \<Rightarrow> string" where
  "replace old new st =
     (if old = [] then new @ concat (map (\<lambda>c. c # new) st) else replace_ne old new st)"

section \<open>clean_for_imdb\<close>

definition a_href :: string where
  "a_href = ''<a href=''"

text \<open>
  One iteration of the \<open>while "<a href=" in st\<close> loop (lines 21 to 29), for the
  position \<open>start_pos\<close> that \<open>st.find("<a href=")\<close> returned.  Without a closing
  \<open>>\<close> the source indexes the single character \<open>st[start_pos + len("<a href=")]\<close>;
  the index raises IndexError when the string ends with the pattern.
\<close>

definition loop_body :: "string \<Rightarrow> nat \<Rightarrow> error + string" where
  "loop_body st start_pos =
     (case find_from ''>'' st start_pos of
        Some end_pos \<Rightarrow> Inr (take start_pos st @ drop (end_pos + 1) st)
      | None \<Rightarrow>
          if start_pos + length a_href < length st
          then Inr (take start_pos st @ [st ! (start_pos + length a_href)])
          else Inl IndexError)"

text \<open>
  The loop.  Its test \<open>"<a href=" in st\<close> and the \<open>st.find("<a href=")\<close> that follows
  are one search (lemma \<open>str_in_find_idx\<close>): the loop runs while the search finds a
  position.
\<close>

function strip_hrefs :: "string \<Rightarrow> error + string" where
  "strip_hrefs st =
     (case find_idx a_href st of
        None \<Rightarrow> Inr st
      | Some start_pos \<Rightarrow>
          (case loop_body st start_pos of
             Inl e \<Rightarrow> Inl e
           | Inr st' \<Rightarrow> strip_hrefs st'))"
  by pat_completeness auto

lemma find_idx_bound:
  "find_idx sub st = Some i \<Longrightarrow> i + length sub \<le> length st"
proof (induction st arbitrary: i)
  case Nil
  then show ?case by (simp split: if_splits)
next
  case (Cons c cs)
  show ?case
  proof (cases "prefix sub (c # cs)")
    case True
    with Cons.prems have "i = 0" by simp
    with prefix_length_le[OF True] show ?thesis by simp
  next
    case False
    with Cons.prems obtain j where "find_idx sub cs = Some j" "i = Suc j" by auto
    with Cons.IH show ?thesis by fastforce
  qed
qed

lemma find_from_bounds:
  assumes "find_from sub st start = Some e"
  shows "start \<le> e" and "e + length sub \<le> length st"
proof -
  from assms obtain i where i: "find_idx sub (drop start st) = Some i" "e = start + i"
    and le: "start \<le> length st"
    by (auto simp: find_from_def split: if_splits)
  from i show "start \<le> e" by simp
  from find_idx_bound[OF i(1)] le i(2) show "e + length sub \<le> length st" by simp
qed

lemma loop_body_measure:
  assumes "loop_body st start_pos = Inr st'"
  shows "length st' < length st"
proof (cases "find_from ''>'' st start_pos")
  case None
  with assms show ?thesis
    by (auto simp: loop_body_def a_href_def split: if_splits)
next
  case (Some end_pos)
  with assms have st': "st' = take start_pos st @ drop (end_pos + 1) st"
    by (simp add: loop_body_def)
  from find_from_bounds[OF Some] show ?thesis unfolding st' by simp
qed

termination strip_hrefs
proof (relation "measure length")
  show "wf (measure length)" by simp
next
  fix st start_pos st'
  assume "find_idx a_href st = Some start_pos" "loop_body st start_pos = Inr st'"
  from loop_body_measure[OF this(2)] show "(st', st) \<in> measure length" by simp
qed

declare strip_hrefs.simps [simp del]

text \<open>
  The same loop with a bound on the number of iterations: \<open>None\<close> when the bound is
  reached while the pattern is still found.
\<close>

fun strip_fuel :: "nat \<Rightarrow> string \<Rightarrow> (error + string) option" where
  "strip_fuel 0 st = (case find_idx a_href st of None \<Rightarrow> Some (Inr st) | Some _ \<Rightarrow> None)"
| "strip_fuel (Suc n) st =
     (case find_idx a_href st of
        None \<Rightarrow> Some (Inr st)
      | Some start_pos \<Rightarrow>
          (case loop_body st start_pos of
             Inl e \<Rightarrow> Some (Inl e)
           | Inr st' \<Rightarrow> strip_fuel n st'))"

text \<open>Lines 16 to 18: the three replacements made before the anchors are looked for.\<close>

definition pre_clean :: "string \<Rightarrow> string" where
  "pre_clean st =
     replace ''<p>'' '' '' (replace ''&quot;'' [dquote] (replace ''<br />'' '' '' st))"

definition clean_for_imdb :: "string \<Rightarrow> error + string" where
  "clean_for_imdb st0 =
     (let st3 = pre_clean st0
      in if str_in a_href st3
         then (case strip_hrefs st3 of
                 Inl e \<Rightarrow> Inl e
               | Inr st4 \<Rightarrow>
                   Inr (replace [backslash, CHR ''n''] '' '' (replace ''</a>'' [] st4)))
         else Inr (replace [backslash, CHR ''n''] '' '' st3))"

section \<open>The dataset and the sharding\<close>

type_synonym row = "string list"

text \<open>
  A file is modelled by the rows that \<open>csv.reader\<close> yields for it and that
  \<open>csv.writer\<close> is given; quoting and line ends are the csv module's.  The file system
  maps a path to the rows of the file there.
\<close>

type_synonym fs = "string \<rightharpoonup> row list"

text \<open>The command-line arguments that \<open>main\<close> itself reads.\<close>

record args =
  data_dir :: string
  output_dir :: string
  gpus :: "int list option"

text \<open>
  The external translator.  \<open>BackTranslator(...).backtranslate_docs\<close> is not part of the
  repository: it is a parameter, given the device, the visible device and the documents.
\<close>

datatype device = Cpu | Cuda int

type_synonym translator = "device \<Rightarrow> int option \<Rightarrow> string list \<Rightarrow> string list"

text \<open>
  \<open>zip(*rows)\<close>: the columns of the rows, as many as the shortest row has; no column at
  all when there is no row.
\<close>

definition zip_star :: "'a list list \<Rightarrow> 'a list list" where
  "zip_star rows =
     (if rows = [] then []
      else map (\<lambda>j. map (\<lambda>r. r ! j) rows) [0 ..< Min (set (map length rows))])"

text \<open>
  Lines 68 to 72: read the rows, and unpack the columns of the data rows into \<open>text\<close>
  and \<open>labels\<close>; the unpacking raises ValueError unless there are exactly two columns.
\<close>

definition load :: "fs \<Rightarrow> string \<Rightarrow> error + (row list \<times> string list \<times> string list)" where
  "load files path =
     (case files path of
        None \<Rightarrow> Inl FileNotFoundError
      | Some data \<Rightarrow>
          (case zip_star (drop 1 data) of
             [text, labels] \<Rightarrow> Inr (data, text, labels)
           | _ \<Rightarrow> Inl ValueError))"

text \<open>A list comprehension over a function that may raise: the first exception wins.\<close>

primrec collect :: "(error + 'a) list \<Rightarrow> error + 'a list" where
  "collect [] = Inr []"
| "collect (r # rs) =
     (case r of
        Inl e \<Rightarrow> Inl e
      | Inr x \<Rightarrow> (case collect rs of Inl e \<Rightarrow> Inl e | Inr xs \<Rightarrow> Inr (x # xs)))"

text \<open>Lines 77 and 78.\<close>

definition prepare :: "string \<Rightarrow> string list \<Rightarrow> error + string list" where
  "prepare path text =
     (if str_in ''imdb'' path \<or> str_in ''IMDB'' path
      then collect (map clean_for_imdb text)
      else Inr text)"

text \<open>
  Python slices \<open>xs[a:b]\<close> and \<open>xs[a:]\<close> with integer bounds: a negative bound counts
  from the end, and every bound is clamped to the list.
\<close>

definition clamp_index :: "nat \<Rightarrow> int \<Rightarrow> nat" where
  "clamp_index n i = (if i < 0 then nat (max 0 (int n + i)) else min n (nat i))"

definition py_slice :: "'a list \<Rightarrow> int \<Rightarrow> int \<Rightarrow> 'a list" where
  "py_slice xs a b =
     (let lo = clamp_index (length xs) a; hi = clamp_index (length xs) b
      in take (hi - lo) (drop lo xs))"

definition py_slice_from :: "'a list \<Rightarrow> int \<Rightarrow> 'a list" where
  "py_slice_from xs a = drop (clamp_index (length xs) a) xs"

text \<open>
  Lines 88 to 90, one iteration of \<open>for gpu_id in args.gpus\<close>: the slice is appended,
  and when \<open>gpu_id\<close> equals \<open>len(args.gpus) - 1\<close> the rest of the text is added to the
  shard appended last.
\<close>

definition shard_step ::
  "string list \<Rightarrow> int \<Rightarrow> nat \<Rightarrow> string list list \<Rightarrow> int \<Rightarrow> string list list" where
  "shard_step text split_point n_gpus text_splitted gpu_id =
     (let appended =
            text_splitted @ [py_slice text (gpu_id * split_point) ((gpu_id + 1) * split_point)]
      in if gpu_id = int n_gpus - 1
         then butlast appended @ [last appended @ py_slice_from text ((gpu_id + 1) * split_point)]
         else appended)"

text \<open>Lines 84 to 90; called with at least two indices, so the division is defined.\<close>

definition split_text :: "string list \<Rightarrow> int list \<Rightarrow> string list list" where
  "split_text text g =
     foldl (shard_step text (int (length text div length g)) (length g)) [] g"

section \<open>translate, the dispatch and main\<close>

text \<open>
  \<open>translate\<close>: with a GPU number the device is \<open>cuda:gpu_num\<close> and the visible device
  is \<open>args.gpus[0]\<close>; without one the translator runs on the CPU.
\<close>

definition translate ::
  "translator \<Rightarrow> args \<Rightarrow> string list \<Rightarrow> int option \<Rightarrow> error + string list" where
  "translate bt a doc gpu_num =
     (case gpu_num of
        Some n \<Rightarrow>
          (case gpus a of
             None \<Rightarrow> Inl TypeError
           | Some [] \<Rightarrow> Inl IndexError
           | Some (visible # _) \<Rightarrow> Inr (bt (Cuda n) (Some visible) doc))
      | None \<Rightarrow> Inr (bt Cpu None doc))"

text \<open>
  Lines 82 to 118.  With more than one index the text is split, the shard sizes are
  asserted to sum to the size of the text, worker \<open>i\<close> translates shard \<open>i\<close> with GPU
  number \<open>i\<close>, and the parent appends the results in the order in which they reach the
  queue: \<open>arrival\<close> lists the workers in that order, a permutation of
  \<open>range(len(args.gpus))\<close> that the scheduler chooses.  A worker has at least two indices
  in \<open>args.gpus\<close>, so its \<open>translate\<close> does not raise.
\<close>

definition back_translate ::
  "translator \<Rightarrow> nat list \<Rightarrow> args \<Rightarrow> string list \<Rightarrow> error + string list" where
  "back_translate bt arrival a text =
     (case gpus a of
        Some g \<Rightarrow>
          if 1 < length g
          then (let text_splitted = split_text text g
                in if sum_list (map length text_splitted) = length text
                   then map_sum id concat
                          (collect (map (\<lambda>i. translate bt a (text_splitted ! i) (Some (int i)))
                                     arrival))
                   else Inl (AssertionError []))
          else (case g of
                  [] \<Rightarrow> Inl IndexError
                | gpu # _ \<Rightarrow> translate bt a text (Some gpu))
      | None \<Rightarrow> translate bt a text None)"

text \<open>\<open>os.path.basename\<close> and \<open>os.path.join\<close> of two parts, on POSIX paths.\<close>

definition basename :: "string \<Rightarrow> string" where
  "basename p = rev (takeWhile (\<lambda>c. c \<noteq> CHR ''/'') (rev p))"

definition path_join :: "string \<Rightarrow> string \<Rightarrow> string" where
  "path_join p q =
     (if prefix ''/'' q then q
      else if p = [] \<or> last p = CHR ''/'' then p @ q
      else p @ ''/'' @ q)"

text \<open>Lines 121 and 122.\<close>

definition output_path :: "args \<Rightarrow> string" where
  "output_path a = path_join (output_dir a) (''bt_'' @ basename (data_dir a))"

text \<open>Lines 125 to 127: the header, then one row per pair of \<open>zip\<close>.\<close>

definition output_rows :: "row \<Rightarrow> string list \<Rightarrow> string list \<Rightarrow> row list" where
  "output_rows header docs labels =
     header # map (\<lambda>(line, label). [line, label]) (zip docs labels)"

text \<open>
  Lines 80 to 129, the part of \<open>main\<close> behind the cleanup: it returns the exception
  it raised, if any, and the file system it leaves.  The output file is opened (and so
  emptied) only after the assertion of line 119.  Opening it is taken to succeed: the
  file system of the model has no directories that could be missing.
\<close>

definition translate_and_write ::
  "translator \<Rightarrow> nat list \<Rightarrow> args \<Rightarrow> fs \<Rightarrow> row list \<Rightarrow> string list \<Rightarrow> string list
     \<Rightarrow> error option \<times> fs" where
  "translate_and_write bt arrival a files data labels text =
     (case back_translate bt arrival a text of
        Inl e \<Rightarrow> (Some e, files)
      | Inr back_translated_docs \<Rightarrow>
          if length labels = length back_translated_docs
          then (case data of
                  [] \<Rightarrow> (Some IndexError, files(output_path a \<mapsto> []))
                | header # _ \<Rightarrow>
                    (None,
                     files(output_path a \<mapsto> output_rows header back_translated_docs labels)))
          else (Some (AssertionError []), files))"

text \<open>\<open>main\<close>: load, clean the texts of an IMDB file, translate and write.\<close>

definition main :: "translator \<Rightarrow> nat list \<Rightarrow> args \<Rightarrow> fs \<Rightarrow> error option \<times> fs" where
  "main bt arrival a files =
     (case load files (data_dir a) of
        Inl e \<Rightarrow> (Some e, files)
      | Inr (data, text, labels) \<Rightarrow>
          (case prepare (data_dir a) text of
             Inl e \<Rightarrow> (Some e, files)
           | Inr text' \<Rightarrow> translate_and_write bt arrival a files data labels text'))"

text \<open>
  Lines 216 to 228: the start-up check against \<open>torch.cuda.device_count()\<close>, which is
  a parameter, and the call of \<open>main\<close>.
\<close>

definition gpu_message :: string where
  "gpu_message = ''The number of GPU used is more than you have''"

definition program ::
  "translator \<Rightarrow> nat list \<Rightarrow> nat \<Rightarrow> args \<Rightarrow> fs \<Rightarrow> error option \<times> fs" where
  "program bt arrival device_count a files =
     (case gpus a of
        Some g \<Rightarrow>
          if length g \<le> device_count then main bt arrival a files
          else (Some (AssertionError gpu_message), files)
      | None \<Rightarrow> main bt arrival a files)"

section \<open>What the claims say, as relations\<close>

text \<open>
  Every occurrence of \<open>old\<close> is replaced by \<open>new\<close>, from left to right: either
  \<open>old\<close> does not occur, or the string is \<open>a\<close>, the leftmost occurrence of
  \<open>old\<close> and \<open>b\<close>, and the result is \<open>a\<close>, \<open>new\<close> and what the same
  replacement makes of \<open>b\<close>.  The occurrence after \<open>a\<close> is the leftmost one when
  none begins inside \<open>a\<close>.  This is written with \<open>sublist\<close> of the library, not
  with the functions that model the source.
\<close>

inductive replaced_every :: "string \<Rightarrow> string \<Rightarrow> string \<Rightarrow> string \<Rightarrow> bool"
  for old new where
  nowhere: "\<not> sublist old st \<Longrightarrow> replaced_every old new st st"
| leftmost:
    "\<not> sublist old (a @ butlast old) \<Longrightarrow> replaced_every old new b r \<Longrightarrow>
     replaced_every old new (a @ old @ b) (a @ new @ r)"

text \<open>
  Opening anchors are cut out: leftmost first, each \<open><a href=\<close> goes together with
  everything up to and including the next \<open>>\<close>, until no \<open><a href=\<close> is left.
  There is no rule for an \<open><a href=\<close> with no \<open>>\<close> behind it.
\<close>

inductive anchors_cut :: "string \<Rightarrow> string \<Rightarrow> bool" where
  no_anchor: "\<not> sublist ''<a href='' st \<Longrightarrow> anchors_cut st st"
| anchor:
    "\<not> sublist ''<a href='' (a @ butlast ''<a href='') \<Longrightarrow> CHR ''>'' \<notin> set u \<Longrightarrow>
     anchors_cut (a @ b) r \<Longrightarrow>
     anchors_cut (a @ ''<a href='' @ u @ ''>'' @ b) r"

text \<open>
  A beginning of \<open><a href=\<close>, not empty and not all of it, stands directly before a
  \<open></a>\<close> in \<open>s\<close>.
\<close>

definition split_anchor :: "string \<Rightarrow> bool" where
  "split_anchor s = list_ex (\<lambda>k. str_in (take k a_href @ ''</a>'') s) [1 ..< length a_href]"

section \<open>The environment and example inputs\<close>

text \<open>
  What the scheduler may do: with more than one index, \<open>arrival\<close> names every worker
  once.  Nothing is asked of it on the other paths, which do not read it.
\<close>

definition arrival_ok :: "nat list \<Rightarrow> args \<Rightarrow> bool" where
  "arrival_ok arrival a =
     (case gpus a of
        None \<Rightarrow> True
      | Some g \<Rightarrow>
          if 1 < length g
          then distinct arrival \<and> length arrival = length g \<and>
               list_all (\<lambda>i. i < length g) arrival
          else True)"

text \<open>A small dataset, two translators and the arguments used in the examples below.\<close>

abbreviation example_rows :: "row list" where
  "example_rows \<equiv> [[''text'', ''label''], [''ab'', ''1''], [''cd'', ''0''], [''ef'', ''1'']]"

abbreviation example_files :: fs where
  "example_files \<equiv> [''d/x.tsv'' \<mapsto> example_rows]"

abbreviation example_args :: "int list option \<Rightarrow> args" where
  "example_args g \<equiv> \<lparr>data_dir = ''d/x.tsv'', output_dir = ''out'', gpus = g\<rparr>"

abbreviation reversing :: translator where
  "reversing \<equiv> \<lambda>d v doc. map rev doc"

abbreviation dropping :: translator where
  "dropping \<equiv> \<lambda>d v doc. tl doc"

abbreviation imdb_rows :: "row list" where
  "imdb_rows \<equiv> [[''text'', ''label''], [''a<br />b'', ''1'']]"

abbreviation imdb_files :: fs where
  "imdb_files \<equiv> [''imdb/x.tsv'' \<mapsto> imdb_rows]"

abbreviation imdb_args :: args where
  "imdb_args \<equiv> \<lparr>data_dir = ''imdb/x.tsv'', output_dir = ''out'', gpus = None\<rparr>"

abbreviation capital_files :: fs where
  "capital_files \<equiv> [''Imdb/x.tsv'' \<mapsto> imdb_rows]"

abbreviation capital_args :: args where
  "capital_args \<equiv> \<lparr>data_dir = ''Imdb/x.tsv'', output_dir = ''out'', gpus = None\<rparr>"

abbreviation bn :: string where
  "bn \<equiv> [backslash, CHR ''n'']"

section \<open>Properties of the string functions and of clean_for_imdb\<close>

lemma str_in_find_idx: "str_in sub st \<longleftrightarrow> find_idx sub st \<noteq> None"
  by (induction st) auto

lemma strip_hrefs_no_href: "strip_hrefs st = Inr s \<Longrightarrow> find_idx a_href s = None"
proof (induction st rule: strip_hrefs.induct)
  case (1 st)
  show ?case
  proof (cases "find_idx a_href st")
    case None
    with "1.prems" show ?thesis by (simp add: strip_hrefs.simps)
  next
    case (Some start_pos)
    with "1.prems" obtain st' where b: "loop_body st start_pos = Inr st'"
      and r: "strip_hrefs st' = Inr s"
      by (auto simp: strip_hrefs.simps[of st] split: sum.splits)
    from "1.IH"[OF Some b r] show ?thesis .
  qed
qed

lemma strip_hrefs_error: "strip_hrefs st = Inl e \<Longrightarrow> e = IndexError"
proof (induction st rule: strip_hrefs.induct)
  case (1 st)
  show ?case
  proof (cases "find_idx a_href st")
    case None
    with "1.prems" show ?thesis by (simp add: strip_hrefs.simps)
  next
    case (Some start_pos)
    show ?thesis
    proof (cases "loop_body st start_pos")
      case (Inl e')
      with Some "1.prems" have "e = e'" by (simp add: strip_hrefs.simps[of st])
      with Inl show ?thesis by (auto simp: loop_body_def split: option.splits if_splits)
    next
      case (Inr st')
      with Some "1.prems" have "strip_hrefs st' = Inl e" by (simp add: strip_hrefs.simps[of st])
      from "1.IH"[OF Some Inr this] show ?thesis .
    qed
  qed
qed

lemma strip_hrefs_length: "strip_hrefs st = Inr s \<Longrightarrow> length s \<le> length st"
proof (induction st rule: strip_hrefs.induct)
  case (1 st)
  show ?case
  proof (cases "find_idx a_href st")
    case None
    with "1.prems" show ?thesis by (simp add: strip_hrefs.simps)
  next
    case (Some start_pos)
    with "1.prems" obtain st' where b: "loop_body st start_pos = Inr st'"
      and r: "strip_hrefs st' = Inr s"
      by (auto simp: strip_hrefs.simps[of st] split: sum.splits)
    from "1.IH"[OF Some b r] loop_body_measure[OF b] show ?thesis by simp
  qed
qed

lemma replace_ne_id: "\<not> str_in old st \<Longrightarrow> replace_ne old new st = st"
  by (induction st) auto

lemma replace_id: "\<not> str_in old st \<Longrightarrow> replace old new st = st"
proof (cases "old = []")
  case True
  assume "\<not> str_in old st"
  moreover from True have "str_in old st" by (cases st) simp_all
  ultimately show ?thesis by simp
next
  case False
  assume "\<not> str_in old st"
  with False show ?thesis by (simp add: replace_def replace_ne_id)
qed

lemma strip_fuel_enough: "length st \<le> n \<Longrightarrow> strip_fuel n st = Some (strip_hrefs st)"
proof (induction n arbitrary: st)
  case 0
  then have "st = []" by simp
  then show ?case by (simp add: strip_hrefs.simps[of "[]"] a_href_def)
next
  case (Suc n)
  show ?case
  proof (cases "find_idx a_href st")
    case None
    then show ?thesis by (simp add: strip_hrefs.simps[of st])
  next
    case (Some start_pos)
    show ?thesis
    proof (cases "loop_body st start_pos")
      case (Inl e)
      with Some show ?thesis by (simp add: strip_hrefs.simps[of st])
    next
      case (Inr st')
      from loop_body_measure[OF Inr] Suc.prems have "length st' \<le> n" by simp
      from Suc.IH[OF this] Some Inr show ?thesis by (simp add: strip_hrefs.simps[of st])
    qed
  qed
qed

text \<open>
  \<open>st.replace\<close> in terms of \<open>st.find\<close>: the leftmost occurrence is replaced, and the
  replacement goes on behind it.
\<close>

lemma replace_ne_leftmost:
  "old \<noteq> [] \<Longrightarrow>
   replace_ne old new st =
     (case find_idx old st of
        None \<Rightarrow> st
      | Some i \<Rightarrow> take i st @ new @ replace_ne old new (drop (i + length old) st))"
proof (induction st)
  case Nil
  then show ?case by simp
next
  case (Cons c cs)
  show ?case
  proof (cases "prefix old (c # cs)")
    case True
    from Cons.prems have "drop (length old) (c # cs) = drop (length old - 1) cs"
      by (cases old) simp_all
    with True show ?thesis by simp
  next
    case False
    with Cons.IH[OF Cons.prems] show ?thesis by (simp split: option.splits)
  qed
qed

lemma replace_leftmost:
  "old \<noteq> [] \<Longrightarrow>
   replace old new st =
     (case find_idx old st of
        None \<Rightarrow> st
      | Some i \<Rightarrow> take i st @ new @ replace old new (drop (i + length old) st))"
  using replace_ne_leftmost[of old new st] by (simp add: replace_def split: option.splits)

lemma clean_for_imdb_result:
  assumes "clean_for_imdb st = Inr r"
  shows "\<exists>s. strip_hrefs (pre_clean st) = Inr s \<and> \<not> str_in a_href s \<and>
             r = replace [backslash, CHR ''n''] '' ''
                   (if str_in a_href (pre_clean st) then replace ''</a>'' [] s else s)"
proof (cases "str_in a_href (pre_clean st)")
  case True
  with assms obtain s where s: "strip_hrefs (pre_clean st) = Inr s"
    and r: "r = replace [backslash, CHR ''n''] '' '' (replace ''</a>'' [] s)"
    by (auto simp: clean_for_imdb_def Let_def split: sum.splits)
  from strip_hrefs_no_href[OF s] have "\<not> str_in a_href s" by (simp add: str_in_find_idx)
  with s r True show ?thesis by simp
next
  case False
  then have n: "find_idx a_href (pre_clean st) = None" by (simp add: str_in_find_idx)
  then have "strip_hrefs (pre_clean st) = Inr (pre_clean st)"
    by (simp add: strip_hrefs.simps[of "pre_clean st"])
  moreover from assms False
  have "r = replace [backslash, CHR ''n''] '' '' (pre_clean st)"
    by (simp add: clean_for_imdb_def Let_def)
  ultimately show ?thesis using False by simp
qed

lemma clean_for_imdb_error: "clean_for_imdb st = Inl e \<Longrightarrow> e = IndexError"
  by (auto simp: clean_for_imdb_def Let_def split: if_splits sum.splits dest: strip_hrefs_error)

lemma incomplete_href_truncates:
  "clean_for_imdb ''see <a href=foo bar baz'' = Inr ''see f''"
  by code_simp

subsection \<open>Patterns in the result of a replacement\<close>

lemma str_in_sublist: "str_in sub st \<longleftrightarrow> sublist sub st"
  by (induction st) (simp_all add: sublist_Cons_right)

lemma prefix_str_in: "prefix sub st \<Longrightarrow> str_in sub st"
  by (simp add: str_in_sublist)

lemma str_in_drop: "str_in sub (drop n st) \<Longrightarrow> str_in sub st"
proof (induction st arbitrary: n)
  case Nil
  then show ?case by simp
next
  case (Cons c cs)
  show ?case
  proof (cases n)
    case 0
    with Cons.prems show ?thesis by simp
  next
    case (Suc m)
    with Cons.prems have "str_in sub (drop m cs)" by simp
    from Cons.IH[OF this] show ?thesis by simp
  qed
qed

text \<open>
  Where a pattern begins in the result of a replacement by at most one character, the
  string holds either the pattern itself or a beginning of it directly before an
  occurrence of \<open>old\<close>.
\<close>

lemma prefix_replace_ne:
  assumes "length new \<le> 1"
  shows "prefix p (replace_ne old new st) \<Longrightarrow>
         prefix p st \<or>
         (\<exists>k < length p. prefix (take k p @ old) st \<and> (\<forall>c. new = [c] \<longrightarrow> p ! k = c))"
proof (induction st arbitrary: p)
  case Nil
  then show ?case by simp
next
  case (Cons c cs)
  show ?case
  proof (cases p)
    case Nil
    then show ?thesis by simp
  next
    case p: (Cons q qs)
    show ?thesis
    proof (cases "prefix old (c # cs)")
      case True
      have "\<forall>d. new = [d] \<longrightarrow> p ! 0 = d"
        using Cons.prems True p by auto
      with True p show ?thesis by (intro disjI2 exI[of _ 0]) simp
    next
      case False
      with Cons.prems p have qc: "q = c" and rest: "prefix qs (replace_ne old new cs)"
        by simp_all
      from Cons.IH[OF rest] show ?thesis
      proof
        assume "prefix qs cs"
        with qc p show ?thesis by simp
      next
        assume "\<exists>k < length qs. prefix (take k qs @ old) cs \<and> (\<forall>c. new = [c] \<longrightarrow> qs ! k = c)"
        then obtain k where "k < length qs" "prefix (take k qs @ old) cs"
          "\<forall>c. new = [c] \<longrightarrow> qs ! k = c" by blast
        with qc p show ?thesis by (intro disjI2 exI[of _ "Suc k"]) simp
      qed
    qed
  qed
qed

lemma str_in_replace_ne:
  "length new \<le> 1 \<Longrightarrow> str_in p (replace_ne old new st) \<Longrightarrow>
         str_in p st \<or>
         (\<exists>k < length p. str_in (take k p @ old) st \<and> (new = [] \<longrightarrow> 0 < k) \<and>
                          (\<forall>c. new = [c] \<longrightarrow> p ! k = c))"
proof (induction old new st rule: replace_ne.induct)
  case (1 old new)
  then show ?case by simp
next
  case (2 old new c cs)
  note len = "2.prems"(1) and inp = "2.prems"(2)
  let ?concl = "str_in p (c # cs) \<or>
         (\<exists>k < length p. str_in (take k p @ old) (c # cs) \<and> (new = [] \<longrightarrow> 0 < k) \<and>
                          (\<forall>c. new = [c] \<longrightarrow> p ! k = c))"
  have lift: ?concl
    if q: "str_in p s' \<or>
         (\<exists>k < length p. str_in (take k p @ old) s' \<and> (new = [] \<longrightarrow> 0 < k) \<and>
                          (\<forall>c. new = [c] \<longrightarrow> p ! k = c))"
      and up: "\<And>x. str_in x s' \<Longrightarrow> str_in x (c # cs)" for s'
    using q
  proof
    assume "str_in p s'"
    from up[OF this] show ?thesis ..
  next
    assume "\<exists>k < length p. str_in (take k p @ old) s' \<and> (new = [] \<longrightarrow> 0 < k) \<and>
                          (\<forall>c. new = [c] \<longrightarrow> p ! k = c)"
    then obtain k where k: "k < length p" "str_in (take k p @ old) s'"
      "new = [] \<longrightarrow> 0 < k" "\<forall>c. new = [c] \<longrightarrow> p ! k = c" by blast
    from k(1) up[OF k(2)] k(3) k(4) show ?thesis by (intro disjI2 exI[of _ k] conjI)
  qed
  have starts: ?concl if pre: "prefix p (replace_ne old new (c # cs))"
    and ok: "new = [] \<Longrightarrow> \<not> prefix old (c # cs)"
  proof -
    from prefix_replace_ne[OF len pre] show ?thesis
    proof
      assume "prefix p (c # cs)"
      from prefix_str_in[OF this] show ?thesis ..
    next
      assume "\<exists>k < length p. prefix (take k p @ old) (c # cs) \<and> (\<forall>c. new = [c] \<longrightarrow> p ! k = c)"
      then obtain k where k: "k < length p" "prefix (take k p @ old) (c # cs)"
        "\<forall>c. new = [c] \<longrightarrow> p ! k = c" by blast
      have "new = [] \<longrightarrow> 0 < k"
      proof
        assume n: "new = []"
        show "0 < k"
        proof (rule ccontr)
          assume "\<not> 0 < k"
          with k(2) have "prefix old (c # cs)" by simp
          with ok[OF n] show False by simp
        qed
      qed
      with k(1) prefix_str_in[OF k(2)] k(3) show ?thesis
        by (intro disjI2 exI[of _ k] conjI)
    qed
  qed
  show ?case
  proof (cases "prefix old (c # cs)")
    case True
    let ?s' = "drop (length old - 1) cs"
    have sub: "\<And>x. str_in x ?s' \<Longrightarrow> str_in x (c # cs)"
      using str_in_drop[of _ "length old - 1" cs] by simp
    show ?thesis
    proof (cases new)
      case Nil
      with True inp have "str_in p (replace_ne old new ?s')" by simp
      from "2.IH"(1)[OF True len this] sub show ?thesis by (rule lift)
    next
      case (Cons d ds)
      with len have new: "new = [d]" by simp
      with True inp
      have "prefix p (replace_ne old new (c # cs)) \<or> str_in p (replace_ne old new ?s')"
        by simp
      then show ?thesis
      proof
        assume "prefix p (replace_ne old new (c # cs))"
        then show ?thesis using new by (intro starts) simp_all
      next
        assume "str_in p (replace_ne old new ?s')"
        from "2.IH"(1)[OF True len this] sub show ?thesis by (rule lift)
      qed
    qed
  next
    case False
    with inp
    have "prefix p (replace_ne old new (c # cs)) \<or> str_in p (replace_ne old new cs)"
      by simp
    then show ?thesis
    proof
      assume "prefix p (replace_ne old new (c # cs))"
      then show ?thesis using False by (intro starts) simp_all
    next
      assume "str_in p (replace_ne old new cs)"
      from "2.IH"(2)[OF False len this] show ?thesis by (rule lift) simp
    qed
  qed
qed

subsection \<open>The functions of the model and the relations\<close>

lemma prefix_before_end:
  assumes "a \<noteq> []" and "prefix sub (a @ sub @ b)"
  shows "prefix sub (a @ butlast sub)"
proof (cases "sub = []")
  case True
  then show ?thesis by simp
next
  case False
  then have split: "a @ sub @ b = (a @ butlast sub) @ ([last sub] @ b)" by simp
  from assms(1) have "0 < length a" by simp
  moreover have "length (a @ butlast sub) = length a + (length sub - 1)" by simp
  ultimately have len: "length sub \<le> length (a @ butlast sub)" by arith
  have "prefix (a @ butlast sub) (a @ sub @ b)" unfolding split by simp
  from prefix_length_prefix[OF assms(2) this len] show ?thesis .
qed

lemma find_idx_leftmost:
  assumes "sub \<noteq> []" and "\<not> sublist sub (a @ butlast sub)"
  shows "find_idx sub (a @ sub @ b) = Some (length a)"
  using assms(2)
proof (induction a)
  case Nil
  from assms(1) obtain c cs where "sub @ b = c # cs" by (cases sub) auto
  moreover have "prefix sub (sub @ b)" by simp
  ultimately show ?case by simp
next
  case (Cons c a)
  have "\<not> prefix sub ((c # a) @ sub @ b)"
  proof
    assume "prefix sub ((c # a) @ sub @ b)"
    then have "prefix sub ((c # a) @ butlast sub)" by (intro prefix_before_end) simp_all
    with Cons.prems show False by blast
  qed
  moreover from Cons.prems have "\<not> sublist sub (a @ butlast sub)"
    by (simp add: sublist_Cons_right)
  ultimately show ?case using Cons.IH by simp
qed

lemma replace_first:
  assumes "old \<noteq> []" and "\<not> sublist old (a @ butlast old)"
  shows "replace old new (a @ old @ b) = a @ new @ replace old new b"
  using replace_leftmost[OF assms(1), of new "a @ old @ b"]
        find_idx_leftmost[OF assms, of b]
  by simp

lemma replaced_every_replace:
  assumes "old \<noteq> []" and "replaced_every old new st r"
  shows "r = replace old new st"
  using assms(2)
proof (induction rule: replaced_every.induct)
  case (nowhere st)
  then show ?case by (simp add: replace_id str_in_sublist)
next
  case (leftmost a b r)
  then show ?case by (simp add: replace_first[OF assms(1)])
qed

lemma find_idx_split:
  assumes "sub \<noteq> []"
  shows "find_idx sub st = Some i \<Longrightarrow>
         st = take i st @ sub @ drop (i + length sub) st \<and>
         \<not> sublist sub (take i st @ butlast sub)"
proof (induction st arbitrary: i)
  case Nil
  with assms show ?case by simp
next
  case (Cons c cs)
  show ?case
  proof (cases "prefix sub (c # cs)")
    case True
    with Cons.prems have i: "i = 0" by simp
    from True obtain zs where zs: "c # cs = sub @ zs" by (auto simp: prefix_def)
    have "\<not> sublist sub (butlast sub)"
    proof
      assume "sublist sub (butlast sub)"
      from assms have "0 < length sub" by simp
      moreover have "length (butlast sub) = length sub - 1" by simp
      ultimately show False
        using sublist_length_le[OF \<open>sublist sub (butlast sub)\<close>] by arith
    qed
    with i zs show ?thesis by simp
  next
    case False
    with Cons.prems obtain j where j: "find_idx sub cs = Some j" "i = Suc j" by auto
    from Cons.IH[OF j(1)]
    have eq: "cs = take j cs @ sub @ drop (j + length sub) cs"
      and nl: "\<not> sublist sub (take j cs @ butlast sub)" by simp_all
    have "\<not> prefix sub (c # take j cs @ butlast sub)"
    proof
      assume p: "prefix sub (c # take j cs @ butlast sub)"
      have "prefix (butlast sub) (sub @ drop (j + length sub) cs)"
        by (metis append_butlast_last_id assms prefixI append.assoc prefix_prefix)
      then have "prefix (take j cs @ butlast sub) (take j cs @ sub @ drop (j + length sub) cs)"
        by simp
      with eq have "prefix (c # take j cs @ butlast sub) (c # cs)" by simp
      with p have "prefix sub (c # cs)" using prefix_order.order_trans by blast
      with False show False ..
    qed
    with nl have "\<not> sublist sub (c # take j cs @ butlast sub)"
      by (simp add: sublist_Cons_right)
    with eq j(2) show ?thesis by simp
  qed
qed

lemma replace_replaced_every:
  assumes "old \<noteq> []"
  shows "replaced_every old new st (replace old new st)"
proof (induction st rule: length_induct)
  case (1 st)
  show ?case
  proof (cases "find_idx old st")
    case None
    then have n: "\<not> sublist old st" by (simp add: str_in_sublist[symmetric] str_in_find_idx)
    then have "replace old new st = st" by (simp add: replace_id str_in_sublist)
    with replaced_every.nowhere[OF n, of new] show ?thesis by simp
  next
    case (Some i)
    let ?a = "take i st" and ?b = "drop (i + length old) st"
    from find_idx_split[OF assms Some]
    have eq: "st = ?a @ old @ ?b" and nl: "\<not> sublist old (?a @ butlast old)" by simp_all
    from assms have "0 < length old" by simp
    moreover have "length ?b = length st - (i + length old)" by simp
    ultimately have "length ?b < length st" using find_idx_bound[OF Some] by arith
    with 1 have "replaced_every old new ?b (replace old new ?b)" by blast
    from replaced_every.leftmost[OF nl this]
    have "replaced_every old new (?a @ old @ ?b) (?a @ new @ replace old new ?b)" .
    moreover have "replace old new st = ?a @ new @ replace old new ?b"
      using replace_leftmost[OF assms, of new st] Some by simp
    ultimately show ?thesis using eq by simp
  qed
qed

lemma anchors_cut_strip_hrefs: "anchors_cut st s \<Longrightarrow> strip_hrefs st = Inr s"
proof (induction rule: anchors_cut.induct)
  case (no_anchor st)
  then have "find_idx a_href st = None"
    using str_in_find_idx[of a_href st] by (simp add: str_in_sublist a_href_def)
  then show ?case by (simp add: strip_hrefs.simps[of st])
next
  case (anchor a u b r)
  let ?st = "a @ a_href @ u @ ''>'' @ b"
  have ne: "a_href \<noteq> []" by (simp add: a_href_def)
  from anchor.hyps(1) have "\<not> sublist a_href (a @ butlast a_href)" by (simp add: a_href_def)
  from find_idx_leftmost[OF ne this] have start: "find_idx a_href ?st = Some (length a)" .
  have "\<not> sublist ''>'' (a_href @ u)"
  proof
    assume "sublist ''>'' (a_href @ u)"
    from set_mono_sublist[OF this] anchor.hyps(2) show False by (auto simp: a_href_def)
  qed
  then have "\<not> sublist ''>'' ((a_href @ u) @ butlast ''>'')" by simp
  from find_idx_leftmost[OF _ this, of b]
  have "find_idx ''>'' (a_href @ u @ ''>'' @ b) = Some (length a_href + length u)" by simp
  then have close: "find_from ''>'' ?st (length a) = Some (length a + (length a_href + length u))"
    by (simp add: find_from_def)
  have body: "loop_body ?st (length a) = Inr (a @ b)"
    unfolding loop_body_def close by simp
  have "strip_hrefs ?st =
          (case find_idx a_href ?st of
             None \<Rightarrow> Inr ?st
           | Some start_pos \<Rightarrow>
               (case loop_body ?st start_pos of
                  Inl e \<Rightarrow> Inl e
                | Inr st' \<Rightarrow> strip_hrefs st'))"
    by (rule strip_hrefs.simps)
  also have "\<dots> = strip_hrefs (a @ b)" using start body by simp
  finally show ?case using anchor.IH by (simp add: a_href_def)
qed

lemma find_idx_prefix: "find_idx sub st = Some i \<Longrightarrow> prefix sub (drop i st)"
proof (induction st arbitrary: i)
  case Nil
  then show ?case by (simp split: if_splits)
next
  case (Cons c cs)
  show ?case
  proof (cases "prefix sub (c # cs)")
    case True
    with Cons.prems show ?thesis by simp
  next
    case False
    with Cons.prems obtain j where "find_idx sub cs = Some j" "i = Suc j" by auto
    with Cons.IH show ?thesis by simp
  qed
qed

text \<open>
  An iteration of the loop that finds the closing \<open>>\<close> is a cut of the relation: the
  relation leaves out only the iterations that find none.
\<close>

lemma complete_iteration_is_a_cut:
  assumes start: "find_idx a_href st = Some i"
    and close: "find_from ''>'' st i = Some e"
    and rest: "anchors_cut (take i st @ drop (e + 1) st) r"
  shows "anchors_cut st r"
proof -
  have ne: "a_href \<noteq> []" by (simp add: a_href_def)
  from find_idx_split[OF ne start]
  have left: "\<not> sublist a_href (take i st @ butlast a_href)" by simp
  from find_idx_bound[OF start] have il: "i \<le> length st" by simp
  from find_idx_prefix[OF start] obtain zs where d: "drop i st = a_href @ zs"
    by (auto simp: prefix_def)
  from close il obtain j where j: "find_idx ''>'' (drop i st) = Some j" and e: "e = i + j"
    by (auto simp: find_from_def)
  from find_idx_split[OF _ j]
  have no: "\<not> sublist ''>'' (take j (drop i st))" by simp
  from find_idx_prefix[OF j] obtain ws where w: "drop j (drop i st) = CHR ''>'' # ws"
    by (auto simp: prefix_def)
  have jl: "length a_href \<le> j"
  proof (rule ccontr)
    assume "\<not> length a_href \<le> j"
    then have less: "j < length a_href" by simp
    with d have "drop j (drop i st) = drop j a_href @ zs" by simp
    with w have "drop j a_href @ zs = CHR ''>'' # ws" by simp
    moreover from less have "drop j a_href \<noteq> []" by simp
    ultimately have "hd (drop j a_href) = CHR ''>''" by (cases "drop j a_href") simp_all
    with less have "a_href ! j = CHR ''>''" by (simp add: hd_drop_conv_nth)
    moreover from less have "a_href ! j \<noteq> CHR ''>''"
      by (auto simp: a_href_def nth_Cons' less_Suc_eq)
    ultimately show False by simp
  qed
  define u where "u = take (j - length a_href) zs"
  from d jl have tk: "take j (drop i st) = a_href @ u" by (simp add: u_def)
  have nu: "CHR ''>'' \<notin> set u"
  proof
    assume "CHR ''>'' \<in> set u"
    then obtain ys ys' where "u = ys @ CHR ''>'' # ys'" by (auto dest: split_list)
    then have "a_href @ u = (a_href @ ys) @ ''>'' @ ys'" by simp
    moreover have "sublist ''>'' ((a_href @ ys) @ ''>'' @ ys')" by (rule sublist_appendI)
    ultimately show False using no tk by simp
  qed
  have "drop (Suc j) (drop i st) = tl (drop j (drop i st))" by (simp add: drop_Suc tl_drop)
  with w have ws: "ws = drop (e + 1) st" by (simp add: e add.commute)
  have "take i st @ drop i st = take i st @ (take j (drop i st) @ drop j (drop i st))"
    by (simp only: append_take_drop_id)
  then have shape: "st = take i st @ a_href @ u @ ''>'' @ drop (e + 1) st"
    unfolding tk w ws by simp
  from left have l': "\<not> sublist ''<a href='' (take i st @ butlast ''<a href='')"
    by (simp add: a_href_def)
  from anchors_cut.anchor[OF l' nu rest]
  have "anchors_cut (take i st @ ''<a href='' @ u @ ''>'' @ drop (e + 1) st) r" .
  then have "anchors_cut (take i st @ a_href @ u @ ''>'' @ drop (e + 1) st) r"
    by (simp add: a_href_def)
  with shape show ?thesis by simp
qed

section \<open>Properties of load, prepare and the dispatch\<close>

lemma collect_length: "collect (map f xs) = Inr ys \<Longrightarrow> length ys = length xs"
  by (induction xs arbitrary: ys) (auto split: sum.splits)

lemma collect_error: "collect rs = Inl e \<Longrightarrow> Inl e \<in> set rs"
  by (induction rs) (auto split: sum.splits)

lemma collect_map_error:
  assumes "collect (map f xs) = Inl e"
  obtains x where "f x = Inl e"
  using collect_error[OF assms] by auto

lemma collect_Inr: "collect (map (\<lambda>x. Inr (f x)) xs) = Inr (map f xs)"
  by (induction xs) simp_all

lemma zip_star_two:
  assumes "zip_star rows = [text, labels]"
  shows "rows \<noteq> []" and "text = map (\<lambda>r. r ! 0) rows" and "labels = map (\<lambda>r. r ! 1) rows"
proof -
  from assms show ne: "rows \<noteq> []" by (auto simp: zip_star_def)
  let ?m = "Min (set (map length rows))"
  from assms ne have eq: "map (\<lambda>j. map (\<lambda>r. r ! j) rows) [0 ..< ?m] = [text, labels]"
    by (simp add: zip_star_def)
  then have "length (map (\<lambda>j. map (\<lambda>r. r ! j) rows) [0 ..< ?m]) = 2" by simp
  then have "?m = 2" by simp
  then have "[0 ..< ?m] = [0, 1]" by (simp add: upt_rec)
  with eq show "text = map (\<lambda>r. r ! 0) rows" and "labels = map (\<lambda>r. r ! 1) rows"
    by simp_all
qed

lemma load_ok:
  assumes "load files path = Inr (data, text, labels)"
  shows "files path = Some data" and "tl data \<noteq> []"
    and "text = map (\<lambda>r. r ! 0) (tl data)" and "labels = map (\<lambda>r. r ! 1) (tl data)"
proof -
  from assms show f: "files path = Some data"
    by (auto simp: load_def split: option.splits list.splits)
  with assms have "zip_star (drop 1 data) = [text, labels]"
    by (auto simp: load_def split: list.splits)
  moreover have "drop 1 data = tl data" by (cases data) simp_all
  ultimately have z: "zip_star (tl data) = [text, labels]" by simp
  from zip_star_two[OF z]
  show "tl data \<noteq> []" and "text = map (\<lambda>r. r ! 0) (tl data)"
    and "labels = map (\<lambda>r. r ! 1) (tl data)" .
qed

lemma load_some:
  assumes "load files path = Inr (data', text, labels)" and "files path = Some data"
  shows "data' = data"
  using load_ok(1)[OF assms(1)] assms(2) by simp

lemma load_error: "load files path = Inl e \<Longrightarrow> e = FileNotFoundError \<or> e = ValueError"
  by (auto simp: load_def split: option.splits list.splits)

lemma prepare_length: "prepare path text = Inr text' \<Longrightarrow> length text' = length text"
  by (auto simp: prepare_def collect_length split: if_splits)

lemma prepare_error:
  assumes "prepare path text = Inl e"
  shows "e = IndexError"
proof -
  from assms have "collect (map clean_for_imdb text) = Inl e"
    by (auto simp: prepare_def split: if_splits)
  then obtain x where "clean_for_imdb x = Inl e" by (rule collect_map_error)
  then show ?thesis by (rule clean_for_imdb_error)
qed

lemma shard_step_length:
  "length (shard_step text sp n ts gpu_id) = Suc (length ts)"
  by (simp add: shard_step_def Let_def)

lemma foldl_shard_step_length:
  "length (foldl (shard_step text sp n) acc g) = length acc + length g"
  by (induction g arbitrary: acc) (simp_all add: shard_step_length)

lemma split_text_length: "length (split_text text g) = length g"
  by (simp add: split_text_def foldl_shard_step_length)

lemma arrival_sum:
  fixes f :: "'a \<Rightarrow> nat"
  assumes d: "distinct arrival" and l: "length arrival = length xs"
    and b: "list_all (\<lambda>i. i < length xs) arrival"
  shows "sum_list (map (\<lambda>i. f (xs ! i)) arrival) = sum_list (map f xs)"
proof -
  from b have sub: "set arrival \<subseteq> {0 ..< length xs}" by (auto simp: list_all_iff)
  from d l have "card (set arrival) = card {0 ..< length xs}" by (simp add: distinct_card)
  with sub have s: "set arrival = {0 ..< length xs}" by (simp add: card_subset_eq)
  have "sum_list (map (\<lambda>i. f (xs ! i)) arrival) = sum (\<lambda>i. f (xs ! i)) (set arrival)"
    using d by (simp add: sum_list_distinct_conv_sum_set)
  also have "\<dots> = sum (\<lambda>i. f (xs ! i)) (set [0 ..< length xs])" using s by simp
  also have "\<dots> = sum_list (map (\<lambda>i. f (xs ! i)) [0 ..< length xs])"
    by (simp add: sum_list_distinct_conv_sum_set)
  also have "map (\<lambda>i. f (xs ! i)) [0 ..< length xs] = map f xs"
    by (rule nth_equalityI) simp_all
  finally show ?thesis .
qed

lemma translate_gpu:
  "gpus a = Some (v # vs) \<Longrightarrow> translate bt a doc (Some n) = Inr (bt (Cuda n) (Some v) doc)"
  by (simp add: translate_def)

lemma translate_error: "translate bt a doc n = Inl e \<Longrightarrow> e = TypeError \<or> e = IndexError"
  by (auto simp: translate_def split: option.splits list.splits)

lemma back_translate_length:
  assumes one: "\<And>d v doc. length (bt d v doc) = length doc"
    and arr: "arrival_ok arrival a"
    and b: "back_translate bt arrival a text = Inr docs"
  shows "length docs = length text"
proof (cases "gpus a")
  case None
  with b one show ?thesis by (auto simp: back_translate_def translate_def)
next
  case (Some g)
  show ?thesis
  proof (cases "1 < length g")
    case False
    with b Some one show ?thesis
      by (cases g) (auto simp: back_translate_def translate_def)
  next
    case True
    then obtain v vs where g: "g = v # vs" by (cases g) auto
    let ?sh = "split_text text g"
    from b Some True have s: "sum_list (map length ?sh) = length text"
      by (auto simp: back_translate_def Let_def split: if_splits)
    have tr: "(\<lambda>i. translate bt a (?sh ! i) (Some (int i))) =
              (\<lambda>i. Inr (bt (Cuda (int i)) (Some v) (?sh ! i)))"
      using Some g by (simp add: translate_gpu)
    from b Some True s
    have "docs = concat (map (\<lambda>i. bt (Cuda (int i)) (Some v) (?sh ! i)) arrival)"
      by (simp add: back_translate_def Let_def tr collect_Inr)
    then have "length docs = sum_list (map (\<lambda>i. length (?sh ! i)) arrival)"
      by (simp add: length_concat comp_def one)
    also from arr Some True
    have "\<dots> = sum_list (map length ?sh)"
      by (intro arrival_sum) (simp_all add: arrival_ok_def split_text_length)
    finally show ?thesis using s by simp
  qed
qed

lemma back_translate_error:
  assumes "back_translate bt arrival a text = Inl e"
  shows "e = AssertionError [] \<or> e = TypeError \<or> e = IndexError"
proof (cases "gpus a")
  case None
  with assms translate_error[of bt a "text" None e] show ?thesis
    by (simp add: back_translate_def)
next
  case (Some g)
  show ?thesis
  proof (cases "1 < length g")
    case False
    with assms Some translate_error[of bt a "text" _ e] show ?thesis
      by (cases g) (auto simp: back_translate_def)
  next
    case True
    let ?sh = "split_text text g"
    show ?thesis
    proof (cases "sum_list (map length ?sh) = length text")
      case False
      with assms Some True show ?thesis by (simp add: back_translate_def Let_def)
    next
      case s: True
      with assms Some True
      have "collect (map (\<lambda>i. translate bt a (?sh ! i) (Some (int i))) arrival) = Inl e"
        by (auto simp: back_translate_def Let_def map_sum_def split: sum.splits)
      then obtain i where "translate bt a (?sh ! i) (Some (int i)) = Inl e"
        by (rule collect_map_error)
      from translate_error[OF this] show ?thesis by blast
    qed
  qed
qed

lemma output_rows_nth:
  assumes "length labels = length docs" and "i < length docs"
  shows "tl (output_rows header docs labels) ! i = [docs ! i, labels ! i]"
  using assms by (simp add: output_rows_def)

lemma output_rows_length:
  "length labels = length docs \<Longrightarrow> length (output_rows header docs labels) = Suc (length docs)"
  by (simp add: output_rows_def)

lemma main_success:
  assumes "main bt arrival a files = (None, files')"
  obtains data texts labels texts' docs header rest where
    "load files (data_dir a) = Inr (data, texts, labels)"
    "prepare (data_dir a) texts = Inr texts'"
    "back_translate bt arrival a texts' = Inr docs"
    "length labels = length docs"
    "data = header # rest"
    "files' = files(output_path a \<mapsto> output_rows header docs labels)"
proof -
  from assms obtain data texts labels
    where l: "load files (data_dir a) = Inr (data, texts, labels)"
    by (cases "load files (data_dir a)") (auto simp: main_def)
  with assms obtain texts' where p: "prepare (data_dir a) texts = Inr texts'"
    by (cases "prepare (data_dir a) texts") (auto simp: main_def)
  with assms l
  have t: "translate_and_write bt arrival a files data labels texts' = (None, files')"
    by (simp add: main_def)
  then obtain docs where b: "back_translate bt arrival a texts' = Inr docs"
    by (cases "back_translate bt arrival a texts'") (auto simp: translate_and_write_def)
  with t have len: "length labels = length docs"
    by (auto simp: translate_and_write_def split: if_splits)
  with t b obtain header rest where d: "data = header # rest"
    and f: "files' = files(output_path a \<mapsto> output_rows header docs labels)"
    by (cases data) (auto simp: translate_and_write_def)
  from l p b len d f show ?thesis by (rule that)
qed

lemma main_no_message:
  assumes "fst (main bt arrival a files) = Some (AssertionError m)"
  shows "m = []"
proof (cases "load files (data_dir a)")
  case (Inl e)
  with assms load_error[OF Inl] show ?thesis by (auto simp: main_def)
next
  case (Inr t)
  then obtain data texts labels where l: "load files (data_dir a) = Inr (data, texts, labels)"
    by (cases t) auto
  show ?thesis
  proof (cases "prepare (data_dir a) texts")
    case (Inl e)
    with assms l prepare_error[OF Inl] show ?thesis by (auto simp: main_def)
  next
    case p: (Inr texts')
    show ?thesis
    proof (cases "back_translate bt arrival a texts'")
      case (Inl e)
      with assms l p back_translate_error[OF Inl] show ?thesis
        by (auto simp: main_def translate_and_write_def)
    next
      case (Inr docs)
      with assms l p show ?thesis
        by (auto simp: main_def translate_and_write_def split: if_splits list.splits)
    qed
  qed
qed

lemma main_after_load:
  assumes l: "load files (data_dir a) = Inr (data, text, labels)"
    and p: "prepare (data_dir a) text = Inr text'"
  shows "main bt arrival a files =
           (case back_translate bt arrival a text' of
              Inl e \<Rightarrow> (Some e, files)
            | Inr docs \<Rightarrow>
                if length labels = length docs
                then (None, files(output_path a \<mapsto> output_rows (hd data) docs labels))
                else (Some (AssertionError []), files))"
proof -
  from load_ok(2)[OF l] obtain header rest where "data = header # rest" by (cases data) auto
  with l p show ?thesis
    by (simp add: main_def translate_and_write_def split: sum.splits)
qed

lemma back_translate_cpu:
  "gpus a = None \<Longrightarrow> back_translate bt arrival a doc = Inr (bt Cpu None doc)"
  by (simp add: back_translate_def translate_def)

lemma back_translate_one_gpu:
  "gpus a = Some [g] \<Longrightarrow> back_translate bt arrival a doc = Inr (bt (Cuda g) (Some g) doc)"
  by (simp add: back_translate_def translate_def)

lemma back_translate_workers:
  assumes "gpus a = Some g" and "1 < length g"
    and "sum_list (map length (split_text doc g)) = length doc"
  shows "back_translate bt arrival a doc =
           Inr (concat (map (\<lambda>i. bt (Cuda (int i)) (Some (hd g)) (split_text doc g ! i)) arrival))"
proof -
  from assms(2) obtain v vs where g: "g = v # vs" by (cases g) auto
  have "(\<lambda>i. translate bt a (split_text doc g ! i) (Some (int i))) =
        (\<lambda>i. Inr (bt (Cuda (int i)) (Some v) (split_text doc g ! i)))"
    using assms(1) g by (simp add: translate_gpu)
  with assms g show ?thesis
    by (simp add: back_translate_def Let_def collect_Inr)
qed

subsection \<open>Sharding for the indices 0 to k - 1\<close>

lemma clamp_index_nat: "m \<le> n \<Longrightarrow> clamp_index n (int m) = m"
  by (simp add: clamp_index_def)

lemma py_slice_shard:
  assumes "(i + 1) * sp \<le> length xs"
  shows "py_slice xs (int i * int sp) ((int i + 1) * int sp) = take sp (drop (i * sp) xs)"
proof -
  have a: "int i * int sp = int (i * sp)" by simp
  have b: "(int i + 1) * int sp = int ((i + 1) * sp)" by (simp add: algebra_simps)
  from assms have le: "i * sp \<le> length xs" by simp
  have "(i + 1) * sp - i * sp = sp" by simp
  then show ?thesis
    unfolding py_slice_def a b Let_def clamp_index_nat[OF assms] clamp_index_nat[OF le]
    by simp
qed

lemma py_slice_from_shard:
  assumes "(i + 1) * sp \<le> length xs"
  shows "py_slice_from xs ((int i + 1) * int sp) = drop ((i + 1) * sp) xs"
proof -
  have b: "(int i + 1) * int sp = int ((i + 1) * sp)" by (simp add: algebra_simps)
  show ?thesis unfolding py_slice_from_def b clamp_index_nat[OF assms] ..
qed

lemma shard_step_position:
  assumes "i < k" and "k * sp \<le> length text"
  shows "shard_step text (int sp) k ts (int i) =
           ts @ [if i = k - 1 then drop (i * sp) text else take sp (drop (i * sp) text)]"
proof -
  from assms have "(i + 1) * sp \<le> k * sp" by (intro mult_le_mono1) simp
  with assms(2) have le: "(i + 1) * sp \<le> length text" by simp
  have eq: "(int i = int k - 1) = (i = k - 1)" using assms(1) by auto
  have j: "take sp (drop (i * sp) text) @ drop ((i + 1) * sp) text = drop (i * sp) text"
    using append_take_drop_id[of sp "drop (i * sp) text"] by simp
  have "shard_step text (int sp) k ts (int i) =
          (if int i = int k - 1
           then ts @ [take sp (drop (i * sp) text) @ drop ((i + 1) * sp) text]
           else ts @ [take sp (drop (i * sp) text)])"
    unfolding shard_step_def Let_def py_slice_shard[OF le] py_slice_from_shard[OF le]
    by simp
  then show ?thesis unfolding j eq by simp
qed

lemma shards_before_last:
  assumes "j < k" and "k * sp \<le> length text"
  shows "foldl (shard_step text (int sp) k) [] (map int [0 ..< j]) =
           map (\<lambda>i. take sp (drop (i * sp) text)) [0 ..< j]"
  using assms(1)
proof (induction j)
  case 0
  show ?case by simp
next
  case (Suc j)
  then have j: "j < k" "j \<noteq> k - 1" by simp_all
  from Suc have "foldl (shard_step text (int sp) k) [] (map int [0 ..< j]) =
           map (\<lambda>i. take sp (drop (i * sp) text)) [0 ..< j]" by simp
  then show ?case
    using j(2) by (simp add: shard_step_position[OF j(1) assms(2)])
qed

lemma concat_shards: "concat (map (\<lambda>i. take sp (drop (i * sp) xs)) [0 ..< j]) = take (j * sp) xs"
proof (induction j)
  case 0
  show ?case by simp
next
  case (Suc j)
  have "take (j * sp) xs @ take sp (drop (j * sp) xs) = take (j * sp + sp) xs"
    by (simp add: take_add)
  with Suc show ?case by (simp add: add.commute)
qed

lemma split_text_positions:
  assumes "0 < k"
  shows "split_text text (map int [0 ..< k]) =
           map (\<lambda>i. take (length text div k) (drop (i * (length text div k)) text)) [0 ..< k - 1]
           @ [drop ((k - 1) * (length text div k)) text]"
proof -
  let ?sp = "length text div k"
  have le: "k * ?sp \<le> length text" by simp
  from assms have k: "k - 1 < k" by simp
  from assms have sk: "Suc (k - 1) = k" by simp
  have up: "[0 ..< k] = [0 ..< k - 1] @ [k - 1]"
    using upt_Suc_append[of 0 "k - 1"] sk by simp
  have "split_text text (map int [0 ..< k]) =
      foldl (shard_step text (int ?sp) k) [] (map int [0 ..< k])"
    by (simp add: split_text_def)
  also have "\<dots> = foldl (shard_step text (int ?sp) k) [] (map int ([0 ..< k - 1] @ [k - 1]))"
    using up by (rule arg_cong)
  also have "\<dots> = shard_step text (int ?sp) k
        (foldl (shard_step text (int ?sp) k) [] (map int [0 ..< k - 1])) (int (k - 1))"
    by (simp only: map_append foldl_append list.map foldl.simps)
  also have "\<dots> = map (\<lambda>i. take ?sp (drop (i * ?sp) text)) [0 ..< k - 1]
                   @ [drop ((k - 1) * ?sp) text]"
    unfolding shards_before_last[OF k le] shard_step_position[OF k le] by simp
  finally show ?thesis .
qed

lemma split_text_positions_concat:
  assumes "0 < k"
  shows "concat (split_text text (map int [0 ..< k])) = text"
  by (simp add: split_text_positions[OF assms] concat_shards)

lemma split_text_positions_sizes:
  assumes "0 < k" and "i < k"
  shows "length (split_text text (map int [0 ..< k]) ! i) =
           length text div k + (if i = k - 1 then length text mod k else 0)"
proof -
  let ?sp = "length text div k"
  have n: "length text = k * ?sp + length text mod k" by simp
  show ?thesis
  proof (cases "i = k - 1")
    case True
    have "k * ?sp = (k - 1) * ?sp + ?sp" using assms(1) by (cases k) simp_all
    with n have "length text - (k - 1) * ?sp = ?sp + length text mod k" by simp
    with True show ?thesis
      by (simp add: split_text_positions[OF assms(1)] nth_append)
  next
    case False
    with assms have i: "i < k - 1" by simp
    then have "(i + 1) * ?sp \<le> (k - 1) * ?sp" by (intro mult_le_mono1) simp
    also have "\<dots> \<le> k * ?sp" by (intro mult_le_mono1) simp
    also have "\<dots> \<le> length text" by simp
    finally have "?sp \<le> length text - i * ?sp" by simp
    with i False show ?thesis
      by (simp add: split_text_positions[OF assms(1)] nth_append min_def)
  qed
qed

subsection \<open>The example run\<close>

lemma example_load:
  "load example_files ''d/x.tsv'' =
     Inr (example_rows, [''ab'', ''cd'', ''ef''], [''1'', ''0'', ''1''])"
  by (simp add: load_def zip_star_def upt_rec)

lemma example_prepare: "prepare ''d/x.tsv'' ts = Inr ts"
  by (simp add: prepare_def)

lemma example_output_path: "output_path (example_args g) = ''out/bt_x.tsv''"
  by (simp add: output_path_def path_join_def basename_def)

lemma example_cpu:
  "back_translate reversing [] (example_args None) [''ab'', ''cd'', ''ef''] =
     Inr [''ba'', ''dc'', ''fe'']"
  by (simp add: back_translate_def translate_def)

lemma example_two_gpus:
  "back_translate reversing [1, 0] (example_args (Some [0, 1])) [''ab'', ''cd'', ''ef''] =
     Inr [''dc'', ''fe'', ''ba'']"
  by code_simp

lemma example_main_cpu:
  "main reversing [] (example_args None) example_files =
     (None, example_files(''out/bt_x.tsv'' \<mapsto>
        [[''text'', ''label''], [''ba'', ''1''], [''dc'', ''0''], [''fe'', ''1'']]))"
  by (simp add: main_def translate_and_write_def example_load example_prepare example_cpu
      example_output_path output_rows_def)

section \<open>The claims\<close>

subsection \<open>Sharding\<close>

text \<open>
  Claim C1.  With two or more requested GPU indices the text is sliced into one shard per
  index, the shards concatenate to the text and the assertion of line 91 holds.  This is
  so for the indices \<open>0, ..., k - 1\<close> (lemmas \<open>split_text_positions_concat\<close> and
  \<open>split_text_positions_sizes\<close>), and only for them: the loop of line 87 slices at
  \<open>gpu_id * split_point\<close>, with the value of the index where its position is meant
  (the loop of line 97 gives worker \<open>i\<close> the shard at position \<open>i\<close>).  For the
  indices 1 and 2 and four texts the shards are \<open>text[2:4]\<close> and \<open>text[4:6]\<close>: the
  first half of the text is in no shard and the assertion fails.  With three texts the
  assertion holds, the first text is in no shard and the last is in both, and the program
  writes a file in which texts and labels no longer belong together.  For 1 and 0 the
  shards are out of order; for 0 and 0 the first half is there twice.
\<close>

theorem shards_of_devices_1_2:
  "split_text [''a'', ''b'', ''c'', ''d''] [1, 2] = [[''c'', ''d''], []] \<and>
   back_translate bt arrival \<lparr>data_dir = dd, output_dir = od, gpus = Some [1, 2]\<rparr>
     [''a'', ''b'', ''c'', ''d''] = Inl (AssertionError []) \<and>
   split_text [''ab'', ''cd'', ''ef''] [1, 2] = [[''cd'', ''ef''], [''ef'']] \<and>
   program reversing [0, 1] 4 (example_args (Some [1, 2])) example_files =
     (None, example_files(''out/bt_x.tsv'' \<mapsto>
        [[''text'', ''label''], [''dc'', ''1''], [''fe'', ''0''], [''fe'', ''1'']])) \<and>
   split_text [''a'', ''b'', ''c'', ''d'', ''e''] [1, 0] =
     [[''c'', ''d'', ''e''], [''a'', ''b'']] \<and>
   split_text [''a'', ''b'', ''c'', ''d''] [0, 0] = [[''a'', ''b''], [''a'', ''b'']]"
proof -
  have s: "split_text [''a'', ''b'', ''c'', ''d''] [1, 2] = [[''c'', ''d''], []]"
    by code_simp
  have a: "back_translate bt arrival \<lparr>data_dir = dd, output_dir = od, gpus = Some [1, 2]\<rparr>
     [''a'', ''b'', ''c'', ''d''] = Inl (AssertionError [])"
    by (simp add: back_translate_def s)
  have s3: "split_text [''ab'', ''cd'', ''ef''] [1, 2] = [[''cd'', ''ef''], [''ef'']]"
    by code_simp
  have b: "back_translate reversing [0, 1] (example_args (Some [1, 2])) [''ab'', ''cd'', ''ef''] =
             Inr [''dc'', ''fe'', ''fe'']"
    by (simp add: back_translate_def s3 translate_def)
  have p: "program reversing [0, 1] 4 (example_args (Some [1, 2])) example_files =
     (None, example_files(''out/bt_x.tsv'' \<mapsto>
        [[''text'', ''label''], [''dc'', ''1''], [''fe'', ''0''], [''fe'', ''1'']]))"
    using b
    by (simp add: program_def main_def translate_and_write_def example_load example_prepare
        example_output_path output_rows_def)
  have s5: "split_text [''a'', ''b'', ''c'', ''d'', ''e''] [1, 0] =
     [[''c'', ''d'', ''e''], [''a'', ''b'']]" by code_simp
  have s0: "split_text [''a'', ''b'', ''c'', ''d''] [0, 0] = [[''a'', ''b''], [''a'', ''b'']]"
    by code_simp
  from s a s3 p s5 s0 show ?thesis by blast
qed

subsection \<open>The written file\<close>

text \<open>
  Claim C2.  When \<open>main\<close> returns, the output file is the only file that changed, it
  has as many rows as the input file, and the label of every data row is the label of
  the input row at the same position: the label column is unchanged in value and order.
\<close>

theorem labels_unchanged:
  assumes "main bt arrival a files = (None, files')" and "files (data_dir a) = Some data"
  shows "\<exists>out. files' = files(output_path a \<mapsto> out) \<and> length out = length data \<and>
           map (\<lambda>r. r ! 1) (tl out) = map (\<lambda>r. r ! 1) (tl data) \<and>
           (\<forall>i. 0 < i \<and> i < length data \<longrightarrow> out ! i ! 1 = data ! i ! 1)"
proof -
  from assms(1) obtain data' texts labels texts' docs header rest where
    l: "load files (data_dir a) = Inr (data', texts, labels)"
    and len: "length labels = length docs"
    and d: "data' = header # rest"
    and f: "files' = files(output_path a \<mapsto> output_rows header docs labels)"
    by (rule main_success)
  from load_some[OF l assms(2)] d have data: "data = header # rest" by simp
  let ?out = "output_rows header docs labels"
  from load_ok(4)[OF l] d have lab: "labels = map (\<lambda>r. r ! 1) rest" by simp
  with len have n: "length docs = length rest" by simp
  have col: "map (\<lambda>r. r ! 1) (tl ?out) = labels"
    using len by (simp add: output_rows_def list_eq_iff_nth_eq)
  have "length ?out = length data" using output_rows_length[OF len] n data by simp
  moreover have c: "map (\<lambda>r. r ! 1) (tl ?out) = map (\<lambda>r. r ! 1) (tl data)"
    using col lab data by simp
  moreover have "\<forall>i. 0 < i \<and> i < length data \<longrightarrow> ?out ! i ! 1 = data ! i ! 1"
  proof (intro allI impI)
    fix i assume i: "0 < i \<and> i < length data"
    then obtain j where j: "i = Suc j" by (cases i) auto
    with i data have jl: "j < length rest" by simp
    have "?out ! i = [docs ! j, labels ! j]"
      using j jl n len by (simp add: output_rows_def)
    with lab jl j data show "?out ! i ! 1 = data ! i ! 1" by simp
  qed
  ultimately show ?thesis using f by blast
qed

theorem labels_unchanged_witness:
  "main reversing [] (example_args None) example_files =
     (None, example_files(''out/bt_x.tsv'' \<mapsto>
        [[''text'', ''label''], [''ba'', ''1''], [''dc'', ''0''], [''fe'', ''1'']])) \<and>
   example_files (data_dir (example_args None)) = Some example_rows \<and>
   (\<exists>out. example_files(''out/bt_x.tsv'' \<mapsto>
        [[''text'', ''label''], [''ba'', ''1''], [''dc'', ''0''], [''fe'', ''1'']]) =
          example_files(output_path (example_args None) \<mapsto> out) \<and>
      length out = length example_rows \<and>
      map (\<lambda>r. r ! 1) (tl out) = map (\<lambda>r. r ! 1) (tl example_rows))"
proof -
  have f: "example_files (data_dir (example_args None)) = Some example_rows" by simp
  from labels_unchanged[OF example_main_cpu f] obtain out where
    "example_files(''out/bt_x.tsv'' \<mapsto>
        [[''text'', ''label''], [''ba'', ''1''], [''dc'', ''0''], [''fe'', ''1'']]) =
          example_files(output_path (example_args None) \<mapsto> out)"
    "length out = length example_rows"
    "map (\<lambda>r. r ! 1) (tl out) = map (\<lambda>r. r ! 1) (tl example_rows)"
    by blast
  with example_main_cpu f show ?thesis by blast
qed

text \<open>
  Claim C3.  If the translator returns one text per text it is given, then the assertion
  of line 119 holds whenever the dispatch returns, \<open>main\<close> returns, and the file it
  writes has exactly as many rows as the input file (the header and one row per data
  row).
\<close>

theorem one_row_per_input_row:
  assumes one: "\<And>d v doc. length (bt d v doc) = length doc"
    and arr: "arrival_ok arrival a"
    and l: "load files (data_dir a) = Inr (data, text, labels)"
    and p: "prepare (data_dir a) text = Inr text'"
    and b: "back_translate bt arrival a text' = Inr docs"
  shows "length docs = length labels \<and>
         (\<exists>out. main bt arrival a files = (None, files(output_path a \<mapsto> out)) \<and>
                length out = length data)"
proof -
  from load_ok[OF l] have ne: "tl data \<noteq> []"
    and t: "length text = length (tl data)" and lb: "length labels = length (tl data)"
    by simp_all
  from back_translate_length[OF one arr b] prepare_length[OF p] t lb
  have len: "length docs = length labels" by simp
  from ne obtain header rest where d: "data = header # rest" by (cases data) auto
  from l p b len d
  have "main bt arrival a files = (None, files(output_path a \<mapsto> output_rows header docs labels))"
    by (simp add: main_def translate_and_write_def)
  moreover have "length (output_rows header docs labels) = length data"
    using output_rows_length[of labels docs header] len lb d by simp
  ultimately show ?thesis using len by blast
qed

theorem one_row_per_input_row_witness:
  "length [''dc'', ''fe'', ''ba''] = length [''1'', ''0'', ''1''] \<and>
   (\<exists>out. main reversing [1, 0] (example_args (Some [0, 1])) example_files =
            (None, example_files(output_path (example_args (Some [0, 1])) \<mapsto> out)) \<and>
          length out = length example_rows)"
proof -
  have one: "\<And>d v doc. length (reversing d v doc) = length doc" by simp
  have arr: "arrival_ok [1, 0] (example_args (Some [0, 1]))" by (simp add: arrival_ok_def)
  have l: "load example_files (data_dir (example_args (Some [0, 1]))) =
             Inr (example_rows, [''ab'', ''cd'', ''ef''], [''1'', ''0'', ''1''])"
    using example_load by simp
  have p: "prepare (data_dir (example_args (Some [0, 1]))) [''ab'', ''cd'', ''ef''] =
             Inr [''ab'', ''cd'', ''ef'']"
    using example_prepare by simp
  from one_row_per_input_row[of reversing, OF one arr l p example_two_gpus]
  show ?thesis .
qed

text \<open>
  Claim C4.  When \<open>main\<close> returns, the first row of the output file is the header row
  of the input file, and every later row has exactly two columns: the back-translated
  text at that position and the label at that position.
\<close>

theorem header_and_two_columns:
  assumes "main bt arrival a files = (None, files')" and "files (data_dir a) = Some data"
  shows "\<exists>out text labels text' docs.
           files' (output_path a) = Some out \<and> out \<noteq> [] \<and> data \<noteq> [] \<and>
           hd out = hd data \<and>
           load files (data_dir a) = Inr (data, text, labels) \<and>
           prepare (data_dir a) text = Inr text' \<and>
           back_translate bt arrival a text' = Inr docs \<and>
           length (tl out) = length docs \<and> length labels = length docs \<and>
           (\<forall>i < length docs. tl out ! i = [docs ! i, labels ! i])"
proof -
  from assms(1) obtain data' texts labels texts' docs header rest where
    l: "load files (data_dir a) = Inr (data', texts, labels)"
    and p: "prepare (data_dir a) texts = Inr texts'"
    and b: "back_translate bt arrival a texts' = Inr docs"
    and len: "length labels = length docs"
    and d: "data' = header # rest"
    and f: "files' = files(output_path a \<mapsto> output_rows header docs labels)"
    by (rule main_success)
  from load_some[OF l assms(2)] have dd: "data' = data" .
  let ?out = "output_rows header docs labels"
  have "files' (output_path a) = Some ?out" using f by simp
  moreover have "?out \<noteq> []" "hd ?out = hd data" using d dd by (auto simp: output_rows_def)
  moreover have "data \<noteq> []" using d dd by auto
  moreover have "length (tl ?out) = length docs" using len by (simp add: output_rows_def)
  moreover have "\<forall>i < length docs. tl ?out ! i = [docs ! i, labels ! i]"
    using output_rows_nth[OF len] by blast
  ultimately show ?thesis using l p b len dd by blast
qed

theorem header_and_two_columns_witness:
  "main reversing [] (example_args None) example_files =
     (None, example_files(''out/bt_x.tsv'' \<mapsto>
        [[''text'', ''label''], [''ba'', ''1''], [''dc'', ''0''], [''fe'', ''1'']])) \<and>
   (\<exists>out docs. (example_files(''out/bt_x.tsv'' \<mapsto>
        [[''text'', ''label''], [''ba'', ''1''], [''dc'', ''0''], [''fe'', ''1'']]))
          (output_path (example_args None)) = Some out \<and>
      hd out = hd example_rows \<and>
      back_translate reversing [] (example_args None) [''ab'', ''cd'', ''ef''] = Inr docs \<and>
      tl out = [[docs ! 0, ''1''], [docs ! 1, ''0''], [docs ! 2, ''1'']])"
proof -
  have f: "example_files (data_dir (example_args None)) = Some example_rows" by simp
  from header_and_two_columns[OF example_main_cpu f] obtain out texts labels texts' docs where
    o: "(example_files(''out/bt_x.tsv'' \<mapsto>
        [[''text'', ''label''], [''ba'', ''1''], [''dc'', ''0''], [''fe'', ''1'']]))
          (output_path (example_args None)) = Some out"
    and h: "hd out = hd example_rows"
    and l: "load example_files (data_dir (example_args None)) = Inr (example_rows, texts, labels)"
    and p: "prepare (data_dir (example_args None)) texts = Inr texts'"
    and b: "back_translate reversing [] (example_args None) texts' = Inr docs"
    and n: "length (tl out) = length docs" "length labels = length docs"
    and r: "\<forall>i < length docs. tl out ! i = [docs ! i, labels ! i]"
    by blast
  from l example_load have tl: "texts = [''ab'', ''cd'', ''ef'']" "labels = [''1'', ''0'', ''1'']"
    by simp_all
  with p example_prepare have t': "texts' = [''ab'', ''cd'', ''ef'']" by simp
  from n tl have n3: "length docs = 3" "length (tl out) = 3" by simp_all
  have "tl out = [[docs ! 0, ''1''], [docs ! 1, ''0''], [docs ! 2, ''1'']]"
  proof (rule nth_equalityI)
    show "length (tl out) = length [[docs ! 0, ''1''], [docs ! 1, ''0''], [docs ! 2, ''1'']]"
      using n3 by simp
  next
    fix i assume "i < length (tl out)"
    with n3 have "i = 0 \<or> i = 1 \<or> i = 2" by auto
    with r n3 tl show "tl out ! i = [[docs ! 0, ''1''], [docs ! 1, ''0''], [docs ! 2, ''1'']] ! i"
      by auto
  qed
  with o h b t' example_main_cpu show ?thesis by blast
qed

subsection \<open>The assertions\<close>

text \<open>
  Claim C6.  With a list of GPU indices, the start-up assertion (the one with the message)
  is what the program raises if and only if there are more indices than CUDA devices; it
  is raised before anything is read or written.
\<close>

theorem gpu_count_assertion:
  assumes "gpus a = Some g"
  shows "(fst (program bt arrival device_count a files) = Some (AssertionError gpu_message)
            \<longleftrightarrow> device_count < length g) \<and>
         (device_count < length g \<longrightarrow>
            program bt arrival device_count a files = (Some (AssertionError gpu_message), files))"
proof -
  have "gpu_message \<noteq> []" by (simp add: gpu_message_def)
  with main_no_message[of bt arrival a files gpu_message]
  have "fst (main bt arrival a files) \<noteq> Some (AssertionError gpu_message)" by blast
  with assms show ?thesis by (auto simp: program_def)
qed

theorem gpu_count_assertion_witness:
  "gpus (example_args (Some [0, 1, 2])) = Some [0, 1, 2] \<and>
   (2::nat) < length [0, 1, 2 :: int] \<and>
   program reversing [] 2 (example_args (Some [0, 1, 2])) example_files =
     (Some (AssertionError gpu_message), example_files) \<and>
   fst (program reversing [2, 1, 0] 3 (example_args (Some [0, 1, 2])) example_files) \<noteq>
     Some (AssertionError gpu_message)"
proof -
  have g: "gpus (example_args (Some [0, 1, 2])) = Some [0, 1, 2]" by simp
  from gpu_count_assertion[OF g, of reversing "[]" 2 example_files]
       gpu_count_assertion[OF g, of reversing "[2, 1, 0]" 3 example_files] g
  show ?thesis by simp
qed

text \<open>
  Claim C7.  If the number of back-translated texts differs from the number of labels,
  \<open>main\<close> raises the assertion of line 119 and leaves the file system as it was: the
  output file is neither created nor changed.
\<close>

theorem count_mismatch_writes_nothing:
  assumes "load files (data_dir a) = Inr (data, text, labels)"
    and "prepare (data_dir a) text = Inr text'"
    and "back_translate bt arrival a text' = Inr docs"
    and "length docs \<noteq> length labels"
  shows "main bt arrival a files = (Some (AssertionError []), files)"
  using assms by (auto simp: main_def translate_and_write_def)

theorem count_mismatch_writes_nothing_witness:
  "back_translate dropping [] (example_args None) [''ab'', ''cd'', ''ef''] = Inr [''cd'', ''ef''] \<and>
   length [''cd'', ''ef''] \<noteq> length [''1'', ''0'', ''1''] \<and>
   main dropping [] (example_args None) example_files = (Some (AssertionError []), example_files)"
proof -
  have l: "load example_files (data_dir (example_args None)) =
             Inr (example_rows, [''ab'', ''cd'', ''ef''], [''1'', ''0'', ''1''])"
    using example_load by simp
  have p: "prepare (data_dir (example_args None)) [''ab'', ''cd'', ''ef''] =
             Inr [''ab'', ''cd'', ''ef'']"
    using example_prepare by simp
  have b: "back_translate dropping [] (example_args None) [''ab'', ''cd'', ''ef''] =
             Inr [''cd'', ''ef'']"
    by (simp add: back_translate_def translate_def)
  have n: "length [''cd'', ''ef''] \<noteq> length [''1'', ''0'', ''1'']" by simp
  from count_mismatch_writes_nothing[OF l p b n] b n show ?thesis by blast
qed

subsection \<open>clean_for_imdb\<close>

lemma clean_for_imdb_chain:
  assumes br: "replaced_every ''<br />'' '' '' st st1"
    and quot: "replaced_every ''&quot;'' [dquote] st1 st2"
    and par: "replaced_every ''<p>'' '' '' st2 st3"
    and cut: "anchors_cut st3 s"
    and closing: "if sublist ''<a href='' st3 then replaced_every ''</a>'' [] s t else t = s"
    and newline: "replaced_every [backslash, CHR ''n''] '' '' t r"
  shows "clean_for_imdb st = Inr r"
proof -
  from replaced_every_replace[OF _ br] replaced_every_replace[OF _ quot]
       replaced_every_replace[OF _ par]
  have pre: "pre_clean st = st3" by (simp add: pre_clean_def)
  from anchors_cut_strip_hrefs[OF cut] have loop: "strip_hrefs st3 = Inr s" .
  from replaced_every_replace[OF _ newline]
  have r: "r = replace [backslash, CHR ''n''] '' '' t" by simp
  show ?thesis
  proof (cases "sublist ''<a href='' st3")
    case True
    with closing have "replaced_every ''</a>'' [] s t" by simp
    from replaced_every_replace[OF _ this] have "t = replace ''</a>'' [] s" by simp
    with True pre loop r show ?thesis
      by (simp add: clean_for_imdb_def str_in_sublist a_href_def)
  next
    case False
    then have "find_idx a_href st3 = None"
      using str_in_find_idx[of a_href st3] by (simp add: str_in_sublist a_href_def)
    with loop have "s = st3" by (simp add: strip_hrefs.simps[of st3])
    with False closing pre r show ?thesis
      by (simp add: clean_for_imdb_def str_in_sublist a_href_def)
  qed
qed

text \<open>
  The claim that every \<open></a>\<close> is removed fails: the removal is inside the
  \<open>if "<a href=" in st\<close> of line 19, so a string without an opening anchor keeps its
  closing anchors.
\<close>

theorem closing_anchor_kept:
  "clean_for_imdb ''x</a>'' = Inr ''x</a>'' \<and> str_in ''</a>'' ''x</a>''"
  by code_simp

text \<open>
  Claim C5, amended.  For every input string in which each \<open><a href=\<close> that the loop
  meets has a \<open>>\<close> behind it, clean_for_imdb returns the string made by these steps
  in this order: every \<open><br />\<close> is replaced by a space, every \<open>&quot;\<close> by a
  double quote and every \<open><p>\<close> by a space; each \<open><a href=\<close> is cut out together
  with everything up to and including the next \<open>>\<close>, leftmost first, until none is
  left; if the string held an \<open><a href=\<close> before that loop, every \<open></a>\<close> is
  removed, and otherwise the string is kept as it is; last, every backslash-n is replaced
  by a space.  The replacements can always be made and give one result each; the cut is
  the only step that an input may not have, and nothing is said of an \<open><a href=\<close>
  with no \<open>>\<close> behind it.
\<close>

theorem clean_for_imdb_cleans:
  "(\<forall>st1 st2 st3 s t r.
      replaced_every ''<br />'' '' '' st st1 \<and>
      replaced_every ''&quot;'' [dquote] st1 st2 \<and>
      replaced_every ''<p>'' '' '' st2 st3 \<and>
      anchors_cut st3 s \<and>
      (if sublist ''<a href='' st3 then replaced_every ''</a>'' [] s t else t = s) \<and>
      replaced_every [backslash, CHR ''n''] '' '' t r \<longrightarrow>
      clean_for_imdb st = Inr r) \<and>
   (\<exists>st1 st2 st3.
      replaced_every ''<br />'' '' '' st st1 \<and>
      replaced_every ''&quot;'' [dquote] st1 st2 \<and>
      replaced_every ''<p>'' '' '' st2 st3 \<and>
      (\<forall>s. anchors_cut st3 s \<longrightarrow>
         (\<exists>t r. (if sublist ''<a href='' st3 then replaced_every ''</a>'' [] s t else t = s) \<and>
                replaced_every [backslash, CHR ''n''] '' '' t r)))"
proof
  show "\<forall>st1 st2 st3 s t r.
      replaced_every ''<br />'' '' '' st st1 \<and>
      replaced_every ''&quot;'' [dquote] st1 st2 \<and>
      replaced_every ''<p>'' '' '' st2 st3 \<and>
      anchors_cut st3 s \<and>
      (if sublist ''<a href='' st3 then replaced_every ''</a>'' [] s t else t = s) \<and>
      replaced_every [backslash, CHR ''n''] '' '' t r \<longrightarrow>
      clean_for_imdb st = Inr r"
    using clean_for_imdb_chain by blast
next
  let ?st1 = "replace ''<br />'' '' '' st"
  let ?st2 = "replace ''&quot;'' [dquote] ?st1"
  let ?st3 = "replace ''<p>'' '' '' ?st2"
  have 1: "replaced_every ''<br />'' '' '' st ?st1" by (rule replace_replaced_every) simp
  have 2: "replaced_every ''&quot;'' [dquote] ?st1 ?st2" by (rule replace_replaced_every) simp
  have 3: "replaced_every ''<p>'' '' '' ?st2 ?st3" by (rule replace_replaced_every) simp
  have 4: "\<exists>t r. (if sublist ''<a href='' ?st3 then replaced_every ''</a>'' [] s t else t = s) \<and>
                replaced_every [backslash, CHR ''n''] '' '' t r" for s
  proof -
    let ?t = "if sublist ''<a href='' ?st3 then replace ''</a>'' [] s else s"
    have "if sublist ''<a href='' ?st3 then replaced_every ''</a>'' [] s ?t else ?t = s"
      using replace_replaced_every[of "''</a>''" "[]" s] by simp
    moreover have "replaced_every [backslash, CHR ''n''] '' '' ?t
                     (replace [backslash, CHR ''n''] '' '' ?t)"
      by (rule replace_replaced_every) simp
    ultimately show ?thesis by blast
  qed
  from 1 2 3 4 show "\<exists>st1 st2 st3.
      replaced_every ''<br />'' '' '' st st1 \<and>
      replaced_every ''&quot;'' [dquote] st1 st2 \<and>
      replaced_every ''<p>'' '' '' st2 st3 \<and>
      (\<forall>s. anchors_cut st3 s \<longrightarrow>
         (\<exists>t r. (if sublist ''<a href='' st3 then replaced_every ''</a>'' [] s t else t = s) \<and>
                replaced_every [backslash, CHR ''n''] '' '' t r))"
    by blast
qed

theorem clean_for_imdb_cleans_witness:
  "replaced_every ''<br />'' '' ''
     (''<br />a<br />&quot;&quot;<p>b<p><a href=x>l</a><a href=y>m</a>'' @ bn @ ''c'' @ bn)
     ('' a &quot;&quot;<p>b<p><a href=x>l</a><a href=y>m</a>'' @ bn @ ''c'' @ bn) \<and>
   replaced_every ''&quot;'' [dquote]
     ('' a &quot;&quot;<p>b<p><a href=x>l</a><a href=y>m</a>'' @ bn @ ''c'' @ bn)
     ('' a '' @ [dquote, dquote] @ ''<p>b<p><a href=x>l</a><a href=y>m</a>'' @ bn @ ''c'' @ bn) \<and>
   replaced_every ''<p>'' '' ''
     ('' a '' @ [dquote, dquote] @ ''<p>b<p><a href=x>l</a><a href=y>m</a>'' @ bn @ ''c'' @ bn)
     ('' a '' @ [dquote, dquote] @ '' b <a href=x>l</a><a href=y>m</a>'' @ bn @ ''c'' @ bn) \<and>
   anchors_cut
     ('' a '' @ [dquote, dquote] @ '' b <a href=x>l</a><a href=y>m</a>'' @ bn @ ''c'' @ bn)
     ('' a '' @ [dquote, dquote] @ '' b l</a>m</a>'' @ bn @ ''c'' @ bn) \<and>
   sublist ''<a href=''
     ('' a '' @ [dquote, dquote] @ '' b <a href=x>l</a><a href=y>m</a>'' @ bn @ ''c'' @ bn) \<and>
   replaced_every ''</a>'' []
     ('' a '' @ [dquote, dquote] @ '' b l</a>m</a>'' @ bn @ ''c'' @ bn)
     ('' a '' @ [dquote, dquote] @ '' b lm'' @ bn @ ''c'' @ bn) \<and>
   replaced_every bn '' ''
     ('' a '' @ [dquote, dquote] @ '' b lm'' @ bn @ ''c'' @ bn)
     ('' a '' @ [dquote, dquote] @ '' b lm c '') \<and>
   clean_for_imdb
     (''<br />a<br />&quot;&quot;<p>b<p><a href=x>l</a><a href=y>m</a>'' @ bn @ ''c'' @ bn) =
     Inr ('' a '' @ [dquote, dquote] @ '' b lm c '')"
proof -
  let ?x = "''<br />a<br />&quot;&quot;<p>b<p><a href=x>l</a><a href=y>m</a>'' @ bn @ ''c'' @ bn"
  let ?x1 = "'' a &quot;&quot;<p>b<p><a href=x>l</a><a href=y>m</a>'' @ bn @ ''c'' @ bn"
  let ?x2 = "'' a '' @ [dquote, dquote] @ ''<p>b<p><a href=x>l</a><a href=y>m</a>'' @ bn @ ''c'' @ bn"
  let ?x3 = "'' a '' @ [dquote, dquote] @ '' b <a href=x>l</a><a href=y>m</a>'' @ bn @ ''c'' @ bn"
  let ?mid = "'' a '' @ [dquote, dquote] @ '' b l</a><a href=y>m</a>'' @ bn @ ''c'' @ bn"
  let ?s = "'' a '' @ [dquote, dquote] @ '' b l</a>m</a>'' @ bn @ ''c'' @ bn"
  let ?t = "'' a '' @ [dquote, dquote] @ '' b lm'' @ bn @ ''c'' @ bn"
  let ?r = "'' a '' @ [dquote, dquote] @ '' b lm c ''"
  have "replace ''<br />'' '' '' ?x = ?x1" by code_simp
  with replace_replaced_every[of "''<br />''" "'' ''" ?x]
  have br: "replaced_every ''<br />'' '' '' ?x ?x1" by simp
  have "replace ''&quot;'' [dquote] ?x1 = ?x2" by code_simp
  with replace_replaced_every[of "''&quot;''" "[dquote]" ?x1]
  have quot: "replaced_every ''&quot;'' [dquote] ?x1 ?x2" by simp
  have "replace ''<p>'' '' '' ?x2 = ?x3" by code_simp
  with replace_replaced_every[of "''<p>''" "'' ''" ?x2]
  have par: "replaced_every ''<p>'' '' '' ?x2 ?x3" by simp
  have n0: "\<not> sublist ''<a href='' ?s" by code_simp
  have c0: "anchors_cut ?s ?s" using n0 by (rule anchors_cut.no_anchor)
  have n1: "\<not> sublist ''<a href='' (('' a '' @ [dquote, dquote] @ '' b l</a>'') @ butlast ''<a href='')"
    by code_simp
  have c1: "anchors_cut
      (('' a '' @ [dquote, dquote] @ '' b l</a>'') @ ''<a href='' @ ''y'' @ ''>'' @ (''m</a>'' @ bn @ ''c'' @ bn))
      ?s"
    by (rule anchors_cut.anchor[OF n1]) (use c0 in simp_all)
  have n2: "\<not> sublist ''<a href='' (('' a '' @ [dquote, dquote] @ '' b '') @ butlast ''<a href='')"
    by code_simp
  have c2: "anchors_cut
      (('' a '' @ [dquote, dquote] @ '' b '') @ ''<a href='' @ ''x'' @ ''>'' @
         (''l</a><a href=y>m</a>'' @ bn @ ''c'' @ bn))
      ?s"
    by (rule anchors_cut.anchor[OF n2]) (use c1 in simp_all)
  then have cut: "anchors_cut ?x3 ?s" by simp
  have sub: "sublist ''<a href='' ?x3" by code_simp
  have "replace ''</a>'' [] ?s = ?t" by code_simp
  with replace_replaced_every[of "''</a>''" "[]" ?s]
  have closing: "replaced_every ''</a>'' [] ?s ?t" by simp
  have "replace bn '' '' ?t = ?r" by code_simp
  with replace_replaced_every[of bn "'' ''" ?t]
  have newline: "replaced_every bn '' '' ?t ?r" by simp
  from sub closing have guard: "if sublist ''<a href='' ?x3 then replaced_every ''</a>'' [] ?s ?t else ?t = ?s"
    by simp
  from clean_for_imdb_cleans[where st = ?x] br quot par cut guard newline
  have "clean_for_imdb ?x = Inr ?r" by blast
  with br quot par cut sub closing newline show ?thesis by blast
qed

text \<open>
  Claim C8.  clean_for_imdb terminates on every input string: an iteration of the loop
  over the occurrences of \<open><a href=\<close> that does not raise leaves a strictly shorter
  string, with a closing \<open>>\<close> (the complete tag is cut out) and without one (the string
  is cut after one more character), so the loop ends within \<open>len(st)\<close> iterations: the
  loop bounded by that many iterations gives the result of the loop.
\<close>

theorem loop_shortens_and_ends:
  "(\<forall>start_pos st'. loop_body st start_pos = Inr st' \<longrightarrow> length st' < length st) \<and>
   strip_fuel (length st) st = Some (strip_hrefs st)"
proof
  show "\<forall>start_pos st'. loop_body st start_pos = Inr st' \<longrightarrow> length st' < length st"
    using loop_body_measure by blast
next
  show "strip_fuel (length st) st = Some (strip_hrefs st)"
    by (rule strip_fuel_enough) simp
qed

theorem loop_shortens_and_ends_witness:
  "loop_body ''a<a href=x>b'' 1 = Inr ''ab'' \<and>
   length ''ab'' < length ''a<a href=x>b'' \<and>
   loop_body ''ab<a href=xyz'' 2 = Inr ''abx'' \<and>
   length ''abx'' < length ''ab<a href=xyz'' \<and>
   strip_fuel (length ''a<a href=x>b'') ''a<a href=x>b'' = Some (Inr ''ab'')"
proof -
  have b1: "loop_body ''a<a href=x>b'' 1 = Inr ''ab''" by code_simp
  have b2: "loop_body ''ab<a href=xyz'' 2 = Inr ''abx''" by code_simp
  have s: "strip_hrefs ''a<a href=x>b'' = Inr ''ab''" by code_simp
  from loop_shortens_and_ends[of "''a<a href=x>b''"] b1 s
  have "length ''ab'' < length ''a<a href=x>b'' \<and>
        strip_fuel (length ''a<a href=x>b'') ''a<a href=x>b'' = Some (Inr ''ab'')"
    by metis
  moreover from loop_shortens_and_ends[of "''ab<a href=xyz''"] b2
  have "length ''abx'' < length ''ab<a href=xyz''" by blast
  ultimately show ?thesis using b1 b2 by blast
qed

text \<open>
  The claim that the returned string holds no \<open><a href=\<close> fails: the two replacements
  made after the loop can put one together, here from \<open><a\<close>, backslash-n and
  \<open>href=\<close>.
\<close>

theorem returned_string_with_anchor:
  "clean_for_imdb (''<a'' @ [backslash, CHR ''n''] @ ''href='') = Inr ''<a href='' \<and>
   str_in ''<a href='' ''<a href=''"
  by code_simp

text \<open>
  Claim C9, amended.  When clean_for_imdb returns, the string that the anchor loop leaves
  holds no \<open><a href=\<close>, and the returned string holds one only if one of the two
  later replacements puts it together: either \<open><a\<close> stands directly before a
  backslash-n in the string that the last replacement is made on, or the loop ran and a
  beginning of \<open><a href=\<close> stands directly before a \<open></a>\<close> in the string the
  loop left.  So when the loop did not run only backslash-n matters, and an ordinary
  anchor comes back without \<open><a href=\<close>.
\<close>

theorem anchor_only_when_assembled:
  assumes "clean_for_imdb st = Inr r"
  shows "\<exists>s t. strip_hrefs (pre_clean st) = Inr s \<and> \<not> str_in a_href s \<and>
           t = (if str_in a_href (pre_clean st) then replace ''</a>'' [] s else s) \<and>
           r = replace [backslash, CHR ''n''] '' '' t \<and>
           (str_in a_href r \<longrightarrow>
              str_in (''<a'' @ [backslash, CHR ''n'']) t \<or>
              (str_in a_href (pre_clean st) \<and> split_anchor s))"
proof -
  from clean_for_imdb_result[OF assms] obtain s
    where s: "strip_hrefs (pre_clean st) = Inr s" and n: "\<not> str_in a_href s"
      and r: "r = replace [backslash, CHR ''n''] '' ''
                    (if str_in a_href (pre_clean st) then replace ''</a>'' [] s else s)"
    by blast
  define t where "t = (if str_in a_href (pre_clean st) then replace ''</a>'' [] s else s)"
  have "str_in (''<a'' @ [backslash, CHR ''n'']) t \<or>
        (str_in a_href (pre_clean st) \<and> split_anchor s)"
    if "str_in a_href r"
  proof -
    from that r have "str_in a_href (replace_ne [backslash, CHR ''n''] '' '' t)"
      by (simp add: t_def replace_def)
    from str_in_replace_ne[OF _ this]
    consider "str_in a_href t"
      | k where "k < length a_href" "str_in (take k a_href @ [backslash, CHR ''n'']) t"
          "a_href ! k = CHR '' ''"
      by auto
    then show ?thesis
    proof cases
      case 1
      show ?thesis
      proof (cases "str_in a_href (pre_clean st)")
        case False
        with 1 n show ?thesis by (simp add: t_def)
      next
        case True
        with 1 have "str_in a_href (replace_ne ''</a>'' [] s)" by (simp add: t_def replace_def)
        from str_in_replace_ne[OF _ this] n
        obtain k where k: "k < length a_href" "str_in (take k a_href @ ''</a>'') s" "0 < k"
          by auto
        then have "k \<in> set [1 ..< length a_href]" by simp
        with k(2) have "split_anchor s" unfolding split_anchor_def list_ex_iff by blast
        with True show ?thesis by simp
      qed
    next
      case 2
      from 2(1) have "k \<in> {0, 1, 2, 3, 4, 5, 6, 7}" by (auto simp: a_href_def)
      with 2(3) have "k = 2" by (auto simp: a_href_def)
      with 2(2) show ?thesis by (simp add: a_href_def)
    qed
  qed
  with s n r show ?thesis unfolding t_def by blast
qed

theorem anchor_only_when_assembled_witness:
  "clean_for_imdb ''a <a href=x.html>link</a> e'' = Inr ''a link e'' \<and>
   strip_hrefs (pre_clean ''a <a href=x.html>link</a> e'') = Inr ''a link</a> e'' \<and>
   \<not> split_anchor ''a link</a> e'' \<and>
   \<not> str_in (''<a'' @ bn) (replace ''</a>'' [] ''a link</a> e'') \<and>
   \<not> str_in a_href ''a link e''"
proof -
  have c: "clean_for_imdb ''a <a href=x.html>link</a> e'' = Inr ''a link e''" by code_simp
  have l: "strip_hrefs (pre_clean ''a <a href=x.html>link</a> e'') = Inr ''a link</a> e''"
    by code_simp
  have i: "str_in a_href (pre_clean ''a <a href=x.html>link</a> e'')" by code_simp
  have ns: "\<not> split_anchor ''a link</a> e''" by code_simp
  have nb: "\<not> str_in (''<a'' @ bn) (replace ''</a>'' [] ''a link</a> e'')" by code_simp
  from anchor_only_when_assembled[OF c] obtain s t where
    "strip_hrefs (pre_clean ''a <a href=x.html>link</a> e'') = Inr s"
    "t = (if str_in a_href (pre_clean ''a <a href=x.html>link</a> e'')
          then replace ''</a>'' [] s else s)"
    "str_in a_href ''a link e'' \<longrightarrow>
       str_in (''<a'' @ bn) t \<or>
       (str_in a_href (pre_clean ''a <a href=x.html>link</a> e'') \<and> split_anchor s)"
    by blast
  with l i have "str_in a_href ''a link e'' \<longrightarrow>
       str_in (''<a'' @ bn) (replace ''</a>'' [] ''a link</a> e'') \<or> split_anchor ''a link</a> e''"
    by simp
  with ns nb have "\<not> str_in a_href ''a link e''" by blast
  with c l ns nb show ?thesis by blast
qed

subsection \<open>When the cleanup runs\<close>

text \<open>
  Claim C10.  The texts are cleaned if and only if the path of the input file contains
  \<open>imdb\<close> or \<open>IMDB\<close>, compared case-sensitively: then the cleaned texts are what
  \<open>main\<close> gives to the dispatch, and for every other path (one with \<open>Imdb\<close>, say)
  the texts as they were read are.  The dispatch gives what it is given to the translator:
  whole on the CPU and on one GPU, shard by shard on several.
\<close>

theorem imdb_path_decides_cleanup:
  assumes "load files (data_dir a) = Inr (data, text, labels)"
  shows
    "(str_in ''imdb'' (data_dir a) \<or> str_in ''IMDB'' (data_dir a) \<longrightarrow>
        (\<forall>e. collect (map clean_for_imdb text) = Inl e \<longrightarrow>
           main bt arrival a files = (Some e, files)) \<and>
        (\<forall>text'. collect (map clean_for_imdb text) = Inr text' \<longrightarrow>
           main bt arrival a files =
             (case back_translate bt arrival a text' of
                Inl e \<Rightarrow> (Some e, files)
              | Inr docs \<Rightarrow>
                  if length labels = length docs
                  then (None, files(output_path a \<mapsto> output_rows (hd data) docs labels))
                  else (Some (AssertionError []), files)))) \<and>
     (\<not> (str_in ''imdb'' (data_dir a) \<or> str_in ''IMDB'' (data_dir a)) \<longrightarrow>
        main bt arrival a files =
          (case back_translate bt arrival a text of
             Inl e \<Rightarrow> (Some e, files)
           | Inr docs \<Rightarrow>
               if length labels = length docs
               then (None, files(output_path a \<mapsto> output_rows (hd data) docs labels))
               else (Some (AssertionError []), files))) \<and>
     (\<forall>doc. gpus a = None \<longrightarrow> back_translate bt arrival a doc = Inr (bt Cpu None doc)) \<and>
     (\<forall>doc g. gpus a = Some [g] \<longrightarrow>
        back_translate bt arrival a doc = Inr (bt (Cuda g) (Some g) doc)) \<and>
     (\<forall>doc g. gpus a = Some g \<and> 1 < length g \<and>
          sum_list (map length (split_text doc g)) = length doc \<longrightarrow>
        back_translate bt arrival a doc =
          Inr (concat (map (\<lambda>i. bt (Cuda (int i)) (Some (hd g)) (split_text doc g ! i))
                         arrival))) \<and>
     \<not> (str_in ''imdb'' ''data/Imdb/train.tsv'' \<or> str_in ''IMDB'' ''data/Imdb/train.tsv'')"
proof (intro conjI impI allI)
  fix e
  assume "str_in ''imdb'' (data_dir a) \<or> str_in ''IMDB'' (data_dir a)"
    and "collect (map clean_for_imdb text) = Inl e"
  with assms show "main bt arrival a files = (Some e, files)"
    by (simp add: main_def prepare_def)
next
  fix text'
  assume "str_in ''imdb'' (data_dir a) \<or> str_in ''IMDB'' (data_dir a)"
    and "collect (map clean_for_imdb text) = Inr text'"
  then have "prepare (data_dir a) text = Inr text'" by (simp add: prepare_def)
  from main_after_load[OF assms this]
  show "main bt arrival a files =
          (case back_translate bt arrival a text' of
             Inl e \<Rightarrow> (Some e, files)
           | Inr docs \<Rightarrow>
               if length labels = length docs
               then (None, files(output_path a \<mapsto> output_rows (hd data) docs labels))
               else (Some (AssertionError []), files))" .
next
  assume "\<not> (str_in ''imdb'' (data_dir a) \<or> str_in ''IMDB'' (data_dir a))"
  then have "prepare (data_dir a) text = Inr text" by (simp add: prepare_def)
  from main_after_load[OF assms this]
  show "main bt arrival a files =
          (case back_translate bt arrival a text of
             Inl e \<Rightarrow> (Some e, files)
           | Inr docs \<Rightarrow>
               if length labels = length docs
               then (None, files(output_path a \<mapsto> output_rows (hd data) docs labels))
               else (Some (AssertionError []), files))" .
next
  fix doc
  assume "gpus a = None"
  then show "back_translate bt arrival a doc = Inr (bt Cpu None doc)"
    by (rule back_translate_cpu)
next
  fix doc g
  assume "gpus a = Some [g]"
  then show "back_translate bt arrival a doc = Inr (bt (Cuda g) (Some g) doc)"
    by (rule back_translate_one_gpu)
next
  fix doc g
  assume "gpus a = Some g \<and> 1 < length g \<and>
          sum_list (map length (split_text doc g)) = length doc"
  then show "back_translate bt arrival a doc =
          Inr (concat (map (\<lambda>i. bt (Cuda (int i)) (Some (hd g)) (split_text doc g ! i))
                         arrival))"
    by (intro back_translate_workers) simp_all
next
  show "\<not> (str_in ''imdb'' ''data/Imdb/train.tsv'' \<or> str_in ''IMDB'' ''data/Imdb/train.tsv'')"
    by simp
qed

theorem imdb_path_decides_cleanup_witness:
  "load imdb_files (data_dir imdb_args) = Inr (imdb_rows, [''a<br />b''], [''1'']) \<and>
   str_in ''imdb'' (data_dir imdb_args) \<and>
   collect (map clean_for_imdb [''a<br />b'']) = Inr [''a b''] \<and>
   main reversing [] imdb_args imdb_files =
     (None, imdb_files(''out/bt_x.tsv'' \<mapsto> [[''text'', ''label''], [''b a'', ''1'']])) \<and>
   load capital_files (data_dir capital_args) = Inr (imdb_rows, [''a<br />b''], [''1'']) \<and>
   \<not> (str_in ''imdb'' (data_dir capital_args) \<or> str_in ''IMDB'' (data_dir capital_args)) \<and>
   main reversing [] capital_args capital_files =
     (None, capital_files(''out/bt_x.tsv'' \<mapsto> [[''text'', ''label''], [''b>/ rb<a'', ''1'']]))"
proof -
  have l: "load imdb_files (data_dir imdb_args) = Inr (imdb_rows, [''a<br />b''], [''1''])"
    by (simp add: load_def zip_star_def upt_rec)
  have s: "str_in ''imdb'' (data_dir imdb_args)" by simp
  have c: "collect (map clean_for_imdb [''a<br />b'']) = Inr [''a b'']" by code_simp
  have g: "gpus imdb_args = None" by simp
  have o: "output_path imdb_args = ''out/bt_x.tsv''"
    by (simp add: output_path_def path_join_def basename_def)
  note t = imdb_path_decides_cleanup[OF l, where bt = reversing and arrival = "[]"]
  from t g have b: "back_translate reversing [] imdb_args [''a b''] = Inr [''b a'']"
    by simp
  from t s c have "main reversing [] imdb_args imdb_files =
      (case back_translate reversing [] imdb_args [''a b''] of
         Inl e \<Rightarrow> (Some e, imdb_files)
       | Inr docs \<Rightarrow>
           if length [''1''] = length docs
           then (None, imdb_files(output_path imdb_args \<mapsto> output_rows (hd imdb_rows) docs [''1'']))
           else (Some (AssertionError []), imdb_files))"
    by blast
  then have m: "main reversing [] imdb_args imdb_files =
     (None, imdb_files(''out/bt_x.tsv'' \<mapsto> [[''text'', ''label''], [''b a'', ''1'']]))"
    by (simp add: b o output_rows_def)
  have l': "load capital_files (data_dir capital_args) = Inr (imdb_rows, [''a<br />b''], [''1''])"
    by (simp add: load_def zip_star_def upt_rec)
  have n: "\<not> (str_in ''imdb'' (data_dir capital_args) \<or> str_in ''IMDB'' (data_dir capital_args))"
    by simp
  have g': "gpus capital_args = None" by simp
  have o': "output_path capital_args = ''out/bt_x.tsv''"
    by (simp add: output_path_def path_join_def basename_def)
  note t' = imdb_path_decides_cleanup[OF l', where bt = reversing and arrival = "[]"]
  from t' g' have b': "back_translate reversing [] capital_args [''a<br />b''] = Inr [''b>/ rb<a'']"
    by simp
  from t' n have "main reversing [] capital_args capital_files =
      (case back_translate reversing [] capital_args [''a<br />b''] of
         Inl e \<Rightarrow> (Some e, capital_files)
       | Inr docs \<Rightarrow>
           if length [''1''] = length docs
           then (None, capital_files(output_path capital_args \<mapsto>
                   output_rows (hd imdb_rows) docs [''1'']))
           else (Some (AssertionError []), capital_files))"
    by blast
  then have m': "main reversing [] capital_args capital_files =
     (None, capital_files(''out/bt_x.tsv'' \<mapsto> [[''text'', ''label''], [''b>/ rb<a'', ''1'']]))"
    by (simp add: b' o' output_rows_def)
  from l s c m l' n m' show ?thesis by blast
qed

end
